theory Spec2Isabelle
  imports Complex_Main
begin

section \<open>Report discovery and CSV extraction (dv.js)\<close>

text \<open>
  A shallow embedding of \<^verbatim>\<open>src/dv.js\<close>: the date rewriter \<^verbatim>\<open>convertDate\<close>, the
  storage-location parser \<^verbatim>\<open>extractFilename\<close>, the two metadata scans
  \<^verbatim>\<open>getReportName\<close> and \<^verbatim>\<open>getReports\<close>, and the stream transformer
  \<^verbatim>\<open>CSVExtractor._transform\<close>.

  Strings are \<^typ>\<open>string\<close>. Exceptions are values of the type \<open>error\<close>, returned
  as \<open>Inl\<close>. The HTTP response, the current instant and the date formatter of the
  luxon library are parameters of the functions that use them.
\<close>

subsection \<open>Errors\<close>

datatype error =
    InvalidResponse    \<comment> \<open>\<^verbatim>\<open>Error('Invalid or empty API response.')\<close>\<close>
  | NoFilename         \<comment> \<open>\<^verbatim>\<open>Error('Unable to extract filename from URL.')\<close>\<close>

subsection \<open>convertDate\<close>

text \<open>
  \<^verbatim>\<open>DATE_PATTERN = /(\d{4})\/(\d{2})\/(\d{2})/\<close>: a sequence of ten character classes.
  \<^verbatim>\<open>\d\<close> is an ASCII digit.
\<close>

datatype cls = Digit | Slash

fun cls_ok :: "cls \<Rightarrow> char \<Rightarrow> bool" where
  "cls_ok Digit c = (c \<in> set ''0123456789'')"
| "cls_ok Slash c = (c = CHR ''/'')"

definition DATE_PATTERN :: "cls list" where
  "DATE_PATTERN = [Digit, Digit, Digit, Digit, Slash, Digit, Digit, Slash, Digit, Digit]"

text \<open>\<open>prefix_match ks s\<close>: the class sequence \<open>ks\<close> matches at the start of \<open>s\<close>.\<close>

fun prefix_match :: "cls list \<Rightarrow> string \<Rightarrow> bool" where
  "prefix_match [] s = True"
| "prefix_match (k # ks) [] = False"
| "prefix_match (k # ks) (c # cs) = (cls_ok k c \<and> prefix_match ks cs)"

definition date_at :: "string \<Rightarrow> bool" where
  "date_at s = prefix_match DATE_PATTERN s"

text \<open>
  The replacement \<^verbatim>\<open>'$1-$2-$3'\<close> of a match \<open>m\<close> of ten characters: group 1 is
  characters 0 to 3, group 2 characters 5 and 6, group 3 characters 8 and 9.
\<close>

definition replacement :: "string \<Rightarrow> string" where
  "replacement m = take 4 m @ ''-'' @ take 2 (drop 5 m) @ ''-'' @ take 2 (drop 8 m)"

text \<open>
  \<^verbatim>\<open>line.replace(new RegExp(DATE_PATTERN, 'g'), '$1-$2-$3')\<close>: scan from the left; where
  the pattern matches, emit the replacement and go on after the match; elsewhere copy
  one character and go on at the next.
\<close>

function convertDate :: "string \<Rightarrow> string" where
  "convertDate [] = []"
| "convertDate (c # cs) =
     (if date_at (c # cs)
      then replacement (take 10 (c # cs)) @ convertDate (drop 10 (c # cs))
      else c # convertDate cs)"
  by pat_completeness auto
termination
  by (relation "measure length") auto

declare convertDate.simps [simp del]

text \<open>
  Occurrences of the pattern in a line: \<open>has_date s\<close> holds when the pattern matches at
  some position of \<open>s\<close>, \<open>date_within n s\<close> when it matches at one of the first \<open>n\<close>
  positions. A line is \<open>overlap_free\<close> when no occurrence starts inside another one,
  that is at one of the nine positions after its start.
\<close>

fun has_date :: "string \<Rightarrow> bool" where
  "has_date [] = False"
| "has_date (c # cs) = (date_at (c # cs) \<or> has_date cs)"

fun date_within :: "nat \<Rightarrow> string \<Rightarrow> bool" where
  "date_within 0 s = False"
| "date_within (Suc n) [] = False"
| "date_within (Suc n) (c # cs) = (date_at (c # cs) \<or> date_within n cs)"

fun overlap_free :: "string \<Rightarrow> bool" where
  "overlap_free [] = True"
| "overlap_free (c # cs) = ((date_at (c # cs) \<longrightarrow> \<not> date_within 9 cs) \<and> overlap_free cs)"

subsection \<open>CSVExtractor\<close>

record extractor =
  csvFound :: bool
  summaryFound :: bool

text \<open>The constructor.\<close>

definition new_extractor :: extractor where
  "new_extractor = \<lparr>csvFound = False, summaryFound = False\<rparr>"

text \<open>The calls the transformer makes on its sinks.\<close>

datatype event =
    HandleFields "string list"   \<comment> \<open>\<^verbatim>\<open>this.handleFields(names)\<close>\<close>
  | PushLine string              \<comment> \<open>\<^verbatim>\<open>this.pushLine(convertedLine)\<close>\<close>
  | PushNull                     \<comment> \<open>\<^verbatim>\<open>this.push(null)\<close>, the end-of-stream signal\<close>

text \<open>\<^verbatim>\<open>chunk.toString().split(',')\<close>; the empty string splits into one empty field.\<close>

fun split_comma :: "string \<Rightarrow> string list" where
  "split_comma [] = [[]]"
| "split_comma (c # cs) =
     (if c = CHR '','' then [] # split_comma cs
      else (case split_comma cs of f # fs \<Rightarrow> (c # f) # fs | [] \<Rightarrow> [[c]]))"

text \<open>\<^verbatim>\<open>line.length === 0 || line[0] === ','\<close>\<close>

definition summary_line :: "string \<Rightarrow> bool" where
  "summary_line line = (case line of [] \<Rightarrow> True | c # _ \<Rightarrow> c = CHR '','')"

text \<open>
  \<^verbatim>\<open>_transform(chunk, enc, done)\<close>: the events of one chunk, in order, and the
  extractor afterwards.
\<close>

definition transform :: "string \<Rightarrow> extractor \<Rightarrow> event list \<times> extractor" where
  "transform chunk this =
     (if csvFound this then
        (if summary_line chunk
         then ([], this\<lparr>summaryFound := True, csvFound := False\<rparr>)
         else ([PushLine (convertDate chunk)], this))
      else if summaryFound this then ([PushNull], this)
      else ([HandleFields (split_comma chunk)], this\<lparr>csvFound := True\<rparr>))"

text \<open>
  The stream calls \<^verbatim>\<open>_transform\<close> on the chunks one after the other.
  \<open>feed\<close> gives, for every chunk, its events and the extractor after it.
\<close>

fun feed :: "extractor \<Rightarrow> string list \<Rightarrow> (event list \<times> extractor) list" where
  "feed this [] = []"
| "feed this (chunk # chunks) =
     (case transform chunk this of (evs, this') \<Rightarrow> (evs, this') # feed this' chunks)"

definition events :: "string list \<Rightarrow> event list" where
  "events chunks = concat (map fst (feed new_extractor chunks))"

text \<open>The extractor after a list of chunks.\<close>

fun final :: "extractor \<Rightarrow> string list \<Rightarrow> extractor" where
  "final this [] = this"
| "final this (chunk # chunks) = final (snd (transform chunk this)) chunks"

text \<open>
  The three states of the stream, as the values of the two flags, and the state changes
  along a list of successive states.
\<close>

definition SCANNING_HEADER :: extractor where
  "SCANNING_HEADER = \<lparr>csvFound = False, summaryFound = False\<rparr>"

definition STREAMING_DATA :: extractor where
  "STREAMING_DATA = \<lparr>csvFound = True, summaryFound = False\<rparr>"

definition SUMMARY_REACHED :: extractor where
  "SUMMARY_REACHED = \<lparr>csvFound = False, summaryFound = True\<rparr>"

definition transitions :: "extractor list \<Rightarrow> (extractor \<times> extractor) list" where
  "transitions sts = filter (\<lambda>(a, b). a \<noteq> b) (zip sts (tl sts))"

subsection \<open>Report metadata\<close>

definition REPORT_AVAILABLE :: string where
  "REPORT_AVAILABLE = ''DONE''"

text \<open>
  One entry of \<^verbatim>\<open>response.data.reports\<close>, with the fields the code reads. The
  field \<^verbatim>\<open>reportDataEndTimeMs\<close> is a string of decimal digits in the response; the record
  holds the integer \<^verbatim>\<open>Number.parseInt\<close> reads from it.
\<close>

record report =
  state :: string                    \<comment> \<open>\<^verbatim>\<open>report.metadata.status.state\<close>\<close>
  reportDataEndTimeMs :: int         \<comment> \<open>\<^verbatim>\<open>Number.parseInt(report.metadata.reportDataEndTimeMs)\<close>\<close>
  googleCloudStoragePath :: string   \<comment> \<open>\<^verbatim>\<open>report.metadata.googleCloudStoragePath\<close>\<close>
  reportId :: string                 \<comment> \<open>\<^verbatim>\<open>report.key.reportId\<close>\<close>

text \<open>
  The response of \<^verbatim>\<open>client.request\<close>: \<open>None\<close> when \<^verbatim>\<open>response.data\<close> is missing,
  \<open>Some None\<close> when \<^verbatim>\<open>response.data.reports\<close> is missing, else the listing.
\<close>

type_synonym response = "report list option option"

text \<open>
  \<^verbatim>\<open>if (!response.data || !response.data.reports || response.data.reports.length === 0)
  throw Error('Invalid or empty API response.')\<close>, the guard of both scans.
\<close>

definition response_reports :: "response \<Rightarrow> error + report list" where
  "response_reports response =
     (case response of
        None \<Rightarrow> Inl InvalidResponse
      | Some None \<Rightarrow> Inl InvalidResponse
      | Some (Some rs) \<Rightarrow> if length rs = 0 then Inl InvalidResponse else Inr rs)"

subsection \<open>extractFilename\<close>

text \<open>
  \<^verbatim>\<open>GCS_URL_PATTERN = /(.*)\/(?<filename>.*)_(.*)_(.*)_(.*)_(.*)\.csv\?(.*)/\<close>:
  seven groups \<^verbatim>\<open>(.*)\<close>, each greedy and capturing, with literal text between them.
\<close>

datatype item = Group | Lit string

definition GCS_URL_PATTERN :: "item list" where
  "GCS_URL_PATTERN =
     [Group, Lit ''/'', Group, Lit ''_'', Group, Lit ''_'', Group, Lit ''_'', Group, Lit ''_'',
      Group, Lit ''.csv?'', Group]"

text \<open>
  The dot matches every character but a line terminator. Of the line terminators of
  the language (LF, CR, U+2028, U+2029) the first two are characters of \<^typ>\<open>char\<close>.
\<close>

definition line_terminator :: "char \<Rightarrow> bool" where
  "line_terminator c = (c = CHR 0x0A \<or> c = CHR 0x0D)"

text \<open>
  The backtracking matcher, at a fixed start: \<open>rmatch its s\<close> is the list of captures of
  the first way, in the order the matcher tries them, in which \<open>its\<close> matches a prefix
  of \<open>s\<close>. A group first takes the next character and tries all that can follow, the
  longer captures before the shorter ones; only when that fails does it end where it
  stands and let the rest of the pattern match.
\<close>

fun rmatch :: "item list \<Rightarrow> string \<Rightarrow> string list option" where
  "rmatch [] s = Some []"
| "rmatch (Lit l # its) s =
     (if take (length l) s = l then rmatch its (drop (length l) s) else None)"
| "rmatch (Group # its) [] = map_option ((#) []) (rmatch its [])"
| "rmatch (Group # its) (c # cs) =
     (if line_terminator c then map_option ((#) []) (rmatch its (c # cs))
      else (case rmatch (Group # its) cs of
              Some (g # gs) \<Rightarrow> Some ((c # g) # gs)
            | _ \<Rightarrow> map_option ((#) []) (rmatch its (c # cs))))"

text \<open>
  \<^verbatim>\<open>GCS_URL_PATTERN.exec(url)\<close>: the pattern is not anchored, the matcher tries the
  start positions from the left.
\<close>

fun exec :: "item list \<Rightarrow> string \<Rightarrow> string list option" where
  "exec its [] = rmatch its []"
| "exec its (c # cs) = (case rmatch its (c # cs) of Some gs \<Rightarrow> Some gs | None \<Rightarrow> exec its cs)"

text \<open>
  \<^verbatim>\<open>extractFilename\<close>. The group \<^verbatim>\<open>filename\<close> is the second capture; the empty string is
  falsy, so an empty \<^verbatim>\<open>filename\<close> throws as a failed match does.
\<close>

definition extractFilename :: "string \<Rightarrow> error + string" where
  "extractFilename url =
     (case exec GCS_URL_PATTERN url of
        None \<Rightarrow> Inl NoFilename
      | Some [] \<Rightarrow> Inl NoFilename
      | Some [prefix] \<Rightarrow> Inl NoFilename
      | Some (prefix # filename # groups) \<Rightarrow>
          if filename = [] then Inl NoFilename else Inr filename)"

text \<open>
  The text a pattern matches with given captures, and the seven-segment shape of the
  storage location as the interface description writes it.
\<close>

fun inst :: "item list \<Rightarrow> string list \<Rightarrow> string" where
  "inst [] gs = []"
| "inst (Lit l # its) gs = l @ inst its gs"
| "inst (Group # its) [] = inst its []"
| "inst (Group # its) (g # gs) = g @ inst its gs"

definition storage_location ::
  "string \<Rightarrow> string \<Rightarrow> string \<Rightarrow> string \<Rightarrow> string \<Rightarrow> string \<Rightarrow> string \<Rightarrow> string" where
  "storage_location prefix filename seg2 seg3 seg4 seg5 suffix =
     prefix @ ''/'' @ filename @ ''_'' @ seg2 @ ''_'' @ seg3 @ ''_'' @ seg4 @ ''_'' @ seg5
       @ ''.csv?'' @ suffix"

text \<open>
  The end of the pattern after \<open>k\<close> more underscores, and the text between the
  filename and the question mark for given segments: with these,
  \<open>GCS_URL_PATTERN = Group # Lit ''/'' # Group # tail_pat 4\<close> and a storage location is
  \<open>prefix @ ''/'' @ filename @ tail_body [seg2, seg3, seg4, seg5] @ ''?'' @ suffix\<close>.
\<close>

fun tail_pat :: "nat \<Rightarrow> item list" where
  "tail_pat 0 = [Lit ''.csv?'', Group]"
| "tail_pat (Suc k) = Lit ''_'' # Group # tail_pat k"

fun tail_body :: "string list \<Rightarrow> string" where
  "tail_body [] = ''.csv''"
| "tail_body (seg # segs) = ''_'' @ seg @ tail_body segs"

subsection \<open>getReportName\<close>

text \<open>The loop of lines 65 to 71, from the initial \<^verbatim>\<open>fileUrl = ''\<close>.\<close>

fun first_available :: "string \<Rightarrow> report list \<Rightarrow> string" where
  "first_available fileUrl [] = fileUrl"
| "first_available fileUrl (report # rest) =
     (if state report = REPORT_AVAILABLE then googleCloudStoragePath report
      else first_available fileUrl rest)"

definition getReportName :: "response \<Rightarrow> error + string" where
  "getReportName response =
     (case response_reports response of
        Inl e \<Rightarrow> Inl e
      | Inr rs \<Rightarrow> extractFilename (first_available [] rs))"

subsection \<open>getReports\<close>

text \<open>The value stored under a date: \<^verbatim>\<open>{url: ..., file: ...}\<close>.\<close>

record report_ref =
  url :: string
  file_key :: string    \<comment> \<open>the property \<^verbatim>\<open>file\<close>\<close>

text \<open>
  The variables of the scan: the result object \<^verbatim>\<open>reports\<close>; the caller's set
  \<^verbatim>\<open>requiredDates\<close>, which the scan empties in place; and \<^verbatim>\<open>latestDate\<close> (\<open>None\<close> for
  \<^verbatim>\<open>null\<close>), as the timestamp in milliseconds.

  The result object begins as the plain object \<^verbatim>\<open>{}\<close>. The field \<open>reports\<close> holds
  its own properties, the keys of the result. The field \<open>reports_proto\<close> holds its
  prototype: \<open>None\<close> as long as this is \<^verbatim>\<open>Object.prototype\<close>, as in \<^verbatim>\<open>{}\<close>, and the
  object that has been made the prototype otherwise.
\<close>

record scan =
  reports :: "string \<rightharpoonup> report_ref"
  requiredDates :: "string set"
  latestDate :: "int option"
  reports_proto :: "report_ref option"

text \<open>
  \<^verbatim>\<open>reports[name] = v\<close>, with an object \<open>v\<close>. Under every name but one the assignment
  creates or overwrites the own property of that name. Under the name \<^verbatim>\<open>__proto__\<close> it
  runs the setter that every plain object inherits from \<^verbatim>\<open>Object.prototype\<close>: \<open>v\<close>
  becomes the prototype of the result object and no property is created.
\<close>

definition assign :: "string \<Rightarrow> report_ref \<Rightarrow> scan \<Rightarrow> scan" where
  "assign name v s =
     (if name = ''__proto__'' then s\<lparr>reports_proto := Some v\<rparr>
      else s\<lparr>reports := (reports s)(name \<mapsto> v)\<rparr>)"

text \<open>
  What the result object holds for a date after such assignments: its own property, or
  for \<^verbatim>\<open>__proto__\<close> its prototype.
\<close>

definition slot :: "scan \<Rightarrow> string \<Rightarrow> report_ref option" where
  "slot s d = (if d = ''__proto__'' then reports_proto s else reports s d)"

text \<open>
  \<^verbatim>\<open>requiredDates\<close> is a \<^verbatim>\<open>Set\<close>: the scan removes dates with \<^verbatim>\<open>requiredDates.delete\<close>
  and branches on the boolean it returns. A \<^verbatim>\<open>Set\<close> has a \<^verbatim>\<open>size\<close> and no \<^verbatim>\<open>length\<close>
  property, so reading \<^verbatim>\<open>requiredDates.length\<close> gives \<^verbatim>\<open>undefined\<close> (\<open>None\<close>),
  whatever the set holds.
\<close>

definition set_length :: "string set \<Rightarrow> nat option" where
  "set_length S = None"

text \<open>
  \<^verbatim>\<open>today.diff(latestDate).as('days')\<close>: the difference in milliseconds, as a fractional
  number of days.
\<close>

definition as_days :: "int \<Rightarrow> rat" where
  "as_days ms = of_int ms / 86400000"

text \<open>
  The first half of the loop body (lines 97 to 109). \<open>toFormat t f\<close> stands for
  \<^verbatim>\<open>DateTime.fromMillis(t).toFormat(f)\<close>.
\<close>

definition visit :: "(int \<Rightarrow> string \<Rightarrow> string) \<Rightarrow> string \<Rightarrow> report \<Rightarrow> scan \<Rightarrow> scan" where
  "visit toFormat dateFormat report s =
     (if state report = REPORT_AVAILABLE then
        (let reportTimestamp = reportDataEndTimeMs report;
             reportDate = toFormat reportTimestamp dateFormat
         in (if reportDate \<in> requiredDates s
             then (assign reportDate
                     \<lparr>url = googleCloudStoragePath report, file_key = reportId report\<rparr> s)
                  \<lparr>requiredDates := requiredDates s - {reportDate},
                   latestDate := Some reportTimestamp\<rparr>
             else s\<lparr>latestDate := Some reportTimestamp\<rparr>))
      else s)"

text \<open>The second half (lines 111 to 117): whether the loop breaks.\<close>

definition stop :: "int \<Rightarrow> rat \<Rightarrow> scan \<Rightarrow> bool" where
  "stop today lookbackDays s =
     (if set_length (requiredDates s) = Some 0 then True
      else (case latestDate s of
              None \<Rightarrow> True
            | Some t \<Rightarrow> (if as_days (today - t) > lookbackDays then True else False)))"

text \<open>
  The loop over the listing. It returns the variables at the exit, and the records the
  loop never reached.
\<close>

fun scan_reports ::
  "int \<Rightarrow> (int \<Rightarrow> string \<Rightarrow> string) \<Rightarrow> rat \<Rightarrow> string \<Rightarrow> report list \<Rightarrow> scan
    \<Rightarrow> scan \<times> report list" where
  "scan_reports today toFormat lookbackDays dateFormat [] s = (s, [])"
| "scan_reports today toFormat lookbackDays dateFormat (report # rest) s =
     (let s' = visit toFormat dateFormat report s
      in if stop today lookbackDays s' then (s', rest)
         else scan_reports today toFormat lookbackDays dateFormat rest s')"

text \<open>
  \<^verbatim>\<open>getReports\<close>. \<open>today\<close> is the value of \<^verbatim>\<open>DateTime.utc()\<close> in milliseconds and
  \<open>required\<close> the caller's set at the call. The function returns the result object of
  the scan \<open>s\<close> in the result, with the keys \<open>reports s\<close>; \<open>requiredDates s\<close> is the
  caller's set after the call.
\<close>

definition getReports ::
  "int \<Rightarrow> (int \<Rightarrow> string \<Rightarrow> string) \<Rightarrow> response \<Rightarrow> string set \<Rightarrow> rat \<Rightarrow> string
    \<Rightarrow> error + scan \<times> report list" where
  "getReports today toFormat response required lookbackDays dateFormat =
     (case response_reports response of
        Inl e \<Rightarrow> Inl e
      | Inr rs \<Rightarrow>
          Inr (scan_reports today toFormat lookbackDays dateFormat rs
                 \<lparr>reports = Map.empty, requiredDates = required, latestDate = None, reports_proto = None\<rparr>))"

text \<open>\<open>dated toFormat dateFormat d r\<close>: the record \<open>r\<close> is available and its date is \<open>d\<close>.\<close>

definition dated :: "(int \<Rightarrow> string \<Rightarrow> string) \<Rightarrow> string \<Rightarrow> string \<Rightarrow> report \<Rightarrow> bool" where
  "dated toFormat dateFormat d r =
     (state r = REPORT_AVAILABLE \<and> toFormat (reportDataEndTimeMs r) dateFormat = d)"

subsection \<open>Example data\<close>

text \<open>
  Four records of the first days of June 2021, a formatter that knows these days, and
  the 4th of June 2021, 00:00 UTC, as the current instant.
\<close>

definition done_0602 :: report where
  "done_0602 = \<lparr>state = ''DONE'', reportDataEndTimeMs = 1622592000000,
                 googleCloudStoragePath = ''U2'', reportId = ''F2''\<rparr>"

definition done_0601 :: report where
  "done_0601 = \<lparr>state = ''DONE'', reportDataEndTimeMs = 1622505600000,
                 googleCloudStoragePath = ''U1'', reportId = ''F1''\<rparr>"

definition running_0603 :: report where
  "running_0603 = \<lparr>state = ''RUNNING'', reportDataEndTimeMs = 1622678400000,
                    googleCloudStoragePath = [], reportId = ''F3''\<rparr>"

definition failed_0531 :: report where
  "failed_0531 = \<lparr>state = ''FAILED'', reportDataEndTimeMs = 1622419200000,
                   googleCloudStoragePath = [], reportId = ''F0''\<rparr>"

definition iso_day :: "int \<Rightarrow> string \<Rightarrow> string" where
  "iso_day t dateFormat =
     (if t div 86400000 = 18780 then ''2021-06-02''
      else if t div 86400000 = 18779 then ''2021-06-01''
      else ''another day'')"

definition june_4th :: int where
  "june_4th = 1622764800000"



section \<open>Theorems\<close>

subsection \<open>The example stream\<close>

lemma convertDate_example: "convertDate ''a,2021/06/01'' = ''a,2021-06-01''"
  by code_simp

text \<open>
  C6. The chunks \<open>name,val\<close>, \<open>a,2021/06/01\<close>, the empty chunk and \<open>total,5\<close> give: for
  the first chunk the field list \<open>name\<close>, \<open>val\<close>; for the second the one data line
  \<open>a,2021-06-01\<close>; for the empty chunk no event; for \<open>total,5\<close>, the chunk after the
  empty one, the end-of-stream signal and no data line.
\<close>

theorem example_stream:
  "map fst (feed new_extractor [''name,val'', ''a,2021/06/01'', '''', ''total,5''])
     = [[HandleFields [''name'', ''val'']], [PushLine ''a,2021-06-01''], [], [PushNull]]"
  by (simp add: transform_def new_extractor_def summary_line_def convertDate_example)

subsection \<open>convertDate\<close>

lemma prefix_match_Cons:
  "prefix_match (k # ks) s \<longleftrightarrow> (\<exists>c cs. s = c # cs \<and> cls_ok k c \<and> prefix_match ks cs)"
  by (cases s) auto

lemma date_atD:
  assumes "date_at s"
  obtains a b c d e f g h rest where
    "s = a # b # c # d # CHR ''/'' # e # f # CHR ''/'' # g # h # rest"
  using assms unfolding date_at_def DATE_PATTERN_def prefix_match_Cons
  by (auto simp del: cls_ok.simps(1))

lemma dash_no_cls: "\<not> cls_ok k CHR ''-''"
  by (cases k) simp_all

text \<open>
  The rewriter keeps the length of the line and changes slashes into dashes only, so
  the pattern matches in the output only where it matches in the input.
\<close>

lemma prefix_match_rel:
  "list_all2 (\<lambda>x y. x = y \<or> x = CHR ''-'' \<and> y = CHR ''/'') xs ys \<Longrightarrow> prefix_match ks xs \<Longrightarrow> prefix_match ks ys"
proof (induction ks arbitrary: xs ys)
  case Nil
  then show ?case by simp
next
  case (Cons k ks)
  from Cons.prems(2) obtain c cs where xs: "xs = c # cs" and c: "cls_ok k c"
    and cs: "prefix_match ks cs"
    by (auto simp: prefix_match_Cons)
  from Cons.prems(1) xs obtain y ys' where ys: "ys = y # ys'"
    and cy: "c = y \<or> c = CHR ''-'' \<and> y = CHR ''/''"
    and rel: "list_all2 (\<lambda>x y. x = y \<or> x = CHR ''-'' \<and> y = CHR ''/'') cs ys'"
    by (auto simp: list_all2_Cons1)
  from c cy have "c = y" using dash_no_cls by auto
  with c cs rel Cons.IH ys show ?case by auto
qed

lemma convertDate_rel: "list_all2 (\<lambda>x y. x = y \<or> x = CHR ''-'' \<and> y = CHR ''/'') (convertDate s) s"
proof (induction s rule: convertDate.induct)
  case 1
  then show ?case by (simp add: convertDate.simps)
next
  case (2 c cs)
  show ?case
  proof (cases "date_at (c # cs)")
    case True
    then obtain a b c' d e f g h rest where
      s: "c # cs = a # b # c' # d # CHR ''/'' # e # f # CHR ''/'' # g # h # rest"
      by (rule date_atD)
    from 2(1)[OF True] s have "list_all2 (\<lambda>x y. x = y \<or> x = CHR ''-'' \<and> y = CHR ''/'') (convertDate rest) rest"
      by simp
    then show ?thesis using True s
      by (simp add: convertDate.simps replacement_def)
  next
    case False
    with 2(2) show ?thesis by (simp add: convertDate.simps)
  qed
qed

lemma date_at_convertDate: "date_at (u @ convertDate r) \<Longrightarrow> date_at (u @ r)"
proof -
  assume a: "date_at (u @ convertDate r)"
  have "list_all2 (\<lambda>x y. x = y \<or> x = CHR ''-'' \<and> y = CHR ''/'') u u"
    by (simp add: list_all2_same)
  then have "list_all2 (\<lambda>x y. x = y \<or> x = CHR ''-'' \<and> y = CHR ''/'') (u @ convertDate r) (u @ r)"
    using convertDate_rel by (rule list_all2_appendI)
  with a show ?thesis unfolding date_at_def by (rule prefix_match_rel[rotated])
qed

lemma convertDate_no_date: "\<not> has_date s \<Longrightarrow> convertDate s = s"
  by (induction s) (auto simp: convertDate.simps)

lemma convertDate_slashes_only:
  "length (convertDate s) = length s \<and>
   (\<forall>i<length s. s ! i \<noteq> CHR ''/'' \<longrightarrow> convertDate s ! i = s ! i)"
  using convertDate_rel[of s] by (auto simp: list_all2_conv_all_nth)

lemma overlap_free_drop: "overlap_free s \<Longrightarrow> overlap_free (drop n s)"
  by (induction s arbitrary: n) (auto simp: drop_Cons split: nat.splits)

lemma date_within_drop: "date_at (drop k s) \<Longrightarrow> k < n \<Longrightarrow> date_within n s"
proof (induction n s arbitrary: k rule: date_within.induct)
  case (1 s)
  then show ?case by simp
next
  case (2 n)
  then show ?case by (simp add: date_at_def DATE_PATTERN_def)
next
  case (3 n c cs)
  then show ?case by (cases k) auto
qed

text \<open>On a line without overlapping occurrences the rewriter leaves no occurrence.\<close>

lemma no_date_after_convertDate: "overlap_free s \<Longrightarrow> \<not> has_date (convertDate s)"
proof (induction s rule: convertDate.induct)
  case 1
  then show ?case by (simp add: convertDate.simps)
next
  case (2 c cs)
  show ?case
  proof (cases "date_at (c # cs)")
    case True
    then obtain a b c' d e f g h rest where
      s: "c # cs = a # b # c' # d # CHR ''/'' # e # f # CHR ''/'' # g # h # rest"
      by (rule date_atD)
    have "overlap_free rest"
      using overlap_free_drop[OF "2.prems", of 10] s by simp
    with "2.IH"(1)[OF True] s have ih: "\<not> has_date (convertDate rest)" by simp
    from "2.prems" True have nw: "\<not> date_within 9 cs" by simp
    have n8: "\<not> date_at (g # h # convertDate rest)"
    proof
      assume "date_at (g # h # convertDate rest)"
      then have "date_at ([g, h] @ rest)" using date_at_convertDate[of "[g, h]" rest] by simp
      then have "date_at (drop 7 cs)" using s by simp
      then show False using nw date_within_drop[of 7 cs 9] by simp
    qed
    have n9: "\<not> date_at (h # convertDate rest)"
    proof
      assume "date_at (h # convertDate rest)"
      then have "date_at ([h] @ rest)" using date_at_convertDate[of "[h]" rest] by simp
      then have "date_at (drop 8 cs)" using s by simp
      then show False using nw date_within_drop[of 8 cs 9] by simp
    qed
    have cv: "convertDate (c # cs) =
        a # b # c' # d # CHR ''-'' # e # f # CHR ''-'' # g # h # convertDate rest"
      using True s by (simp add: convertDate.simps replacement_def)
    show ?thesis unfolding cv using ih n8 n9
      by (simp add: date_at_def DATE_PATTERN_def)
  next
    case False
    from "2.prems" have "overlap_free cs" by simp
    with "2.IH"(2)[OF False] have ih: "\<not> has_date (convertDate cs)" by simp
    have "\<not> date_at (c # convertDate cs)"
      using date_at_convertDate[of "[c]" cs] False by auto
    with ih False show ?thesis by (simp add: convertDate.simps)
  qed
qed

text \<open>
  C5, as stated, fails: in \<open>2021/06/0122/33/44\<close> the pattern matches at position 0 and
  at position 8. The first pass rewrites the match at position 0 and goes on after it,
  at \<open>22/33/44\<close>, where no match begins; the second pass finds \<open>0122/33/44\<close> with its
  slashes still in place and rewrites it.
\<close>

theorem convertDate_twice_counterexample:
  "convertDate ''2021/06/0122/33/44'' = ''2021-06-0122/33/44'' \<and>
   convertDate (convertDate ''2021/06/0122/33/44'') = ''2021-06-0122-33-44''"
  by code_simp

text \<open>
  C5, as amended: applying \<open>convertDate\<close> twice gives the same as applying it once on
  every line in which no two occurrences of the pattern overlap; a line with no
  occurrence of the pattern, such as one whose dates are in dash form already, is
  returned as it is; and on every line the rewriter keeps the length and every
  character that is not a slash, so that no date in dash form is ever altered.
\<close>

theorem convertDate_idempotent:
  "(overlap_free line \<longrightarrow> convertDate (convertDate line) = convertDate line) \<and>
   (\<not> has_date line \<longrightarrow> convertDate line = line) \<and>
   length (convertDate line) = length line \<and>
   (\<forall>i<length line. line ! i \<noteq> CHR ''/'' \<longrightarrow> convertDate line ! i = line ! i)"
  using no_date_after_convertDate[of line] convertDate_no_date[of "convertDate line"]
    convertDate_no_date[of line] convertDate_slashes_only[of line]
  by blast

theorem convertDate_idempotent_witness:
  "overlap_free ''a,2021/06/01,2021/06/02'' \<and>
   convertDate (convertDate ''a,2021/06/01,2021/06/02'') = convertDate ''a,2021/06/01,2021/06/02'' \<and>
   \<not> has_date ''a,2021-06-01'' \<and>
   convertDate ''a,2021-06-01'' = ''a,2021-06-01'' \<and>
   (2 :: nat) < length ''2021-06-01 2021/06/02'' \<and>
   ''2021-06-01 2021/06/02'' ! 2 \<noteq> CHR ''/'' \<and>
   convertDate ''2021-06-01 2021/06/02'' ! 2 = ''2021-06-01 2021/06/02'' ! 2"
proof -
  have h1: "overlap_free ''a,2021/06/01,2021/06/02''" by code_simp
  have h2: "\<not> has_date ''a,2021-06-01''" by code_simp
  have h3: "(2 :: nat) < length ''2021-06-01 2021/06/02''" by simp
  have h4: "''2021-06-01 2021/06/02'' ! 2 \<noteq> CHR ''/''" by simp
  from h1 h2 h3 h4 convertDate_idempotent[of "''a,2021/06/01,2021/06/02''"]
    convertDate_idempotent[of "''a,2021-06-01''"]
    convertDate_idempotent[of "''2021-06-01 2021/06/02''"]
  show ?thesis by blast
qed

subsection \<open>The order of the stream events\<close>

lemma transform_header:
  "transform c new_extractor = ([HandleFields (split_comma c)], STREAMING_DATA)"
  by (simp add: transform_def new_extractor_def STREAMING_DATA_def)

lemma transform_data:
  "transform c STREAMING_DATA =
     (if summary_line c then ([], SUMMARY_REACHED) else ([PushLine (convertDate c)], STREAMING_DATA))"
  by (simp add: transform_def SUMMARY_REACHED_def STREAMING_DATA_def)

lemma transform_summary: "transform c SUMMARY_REACHED = ([PushNull], SUMMARY_REACHED)"
  by (simp add: transform_def SUMMARY_REACHED_def)

lemma feed_header:
  "feed new_extractor (c # cs)
     = ([HandleFields (split_comma c)], STREAMING_DATA) # feed STREAMING_DATA cs"
  by (simp add: transform_header)

lemma states_distinct:
  "SCANNING_HEADER \<noteq> STREAMING_DATA" "STREAMING_DATA \<noteq> SUMMARY_REACHED"
  "new_extractor = SCANNING_HEADER"
  by (simp_all add: SCANNING_HEADER_def STREAMING_DATA_def SUMMARY_REACHED_def new_extractor_def)

lemma feed_summary: "feed SUMMARY_REACHED cs = map (\<lambda>c. ([PushNull], SUMMARY_REACHED)) cs"
  by (induction cs) (simp_all add: transform_summary)

lemma feed_append: "feed s (xs @ ys) = feed s xs @ feed (final s xs) ys"
  by (induction xs arbitrary: s) (auto split: prod.splits)

text \<open>After the header the stream is in its last state as soon as a summary line has come.\<close>

lemma final_summary: "final SUMMARY_REACHED cs = SUMMARY_REACHED"
  by (induction cs) (simp_all add: transform_summary)

lemma final_data_eq:
  "final STREAMING_DATA cs
     = (if \<exists>c\<in>set cs. summary_line c then SUMMARY_REACHED else STREAMING_DATA)"
  by (induction cs) (simp_all add: transform_data final_summary)

text \<open>
  The events of a summary line that is not the first chunk: none when it is the first
  summary line, the end-of-stream signal when one has come before; the stream is in its
  last state afterwards.
\<close>

lemma feed_boundary:
  assumes "summary_line b"
  shows "feed (final new_extractor (c # pre)) (b # post)
           = ((if \<exists>c\<in>set pre. summary_line c then [PushNull] else []), SUMMARY_REACHED)
             # feed SUMMARY_REACHED post"
  using assms
  by (simp add: transform_header final_data_eq transform_data transform_summary)

lemma events_after_header:
  "e \<in> set (concat (map fst (feed s cs))) \<Longrightarrow> s = STREAMING_DATA \<or> s = SUMMARY_REACHED \<Longrightarrow>
   e \<noteq> HandleFields names"
proof (induction cs arbitrary: s)
  case Nil
  then show ?case by simp
next
  case (Cons c cs)
  from Cons.prems(2) show ?case
  proof
    assume s: "s = STREAMING_DATA"
    show ?thesis
    proof (cases "summary_line c")
      case True
      with Cons.prems(1) s have "e \<in> set (concat (map fst (feed SUMMARY_REACHED cs)))"
        by (simp add: transform_data)
      then show ?thesis by (rule Cons.IH) simp
    next
      case False
      with Cons.prems(1) s
      have "e = PushLine (convertDate c) \<or> e \<in> set (concat (map fst (feed STREAMING_DATA cs)))"
        by (simp add: transform_data)
      then show ?thesis using Cons.IH[of STREAMING_DATA] by auto
    qed
  next
    assume s: "s = SUMMARY_REACHED"
    with Cons.prems(1) have "e = PushNull \<or> e \<in> set (concat (map fst (feed SUMMARY_REACHED cs)))"
      by (simp add: transform_summary)
    then show ?thesis using Cons.IH[of SUMMARY_REACHED] by auto
  qed
qed

lemma transitions_Cons2:
  "transitions (a # b # sts) = (if a \<noteq> b then [(a, b)] else []) @ transitions (b # sts)"
  by (simp add: transitions_def)

lemma transitions_summary:
  "transitions (SUMMARY_REACHED # map snd (feed SUMMARY_REACHED cs)) = []"
  by (induction cs) (simp_all add: transitions_def transform_summary)

lemma transitions_data:
  "transitions (STREAMING_DATA # map snd (feed STREAMING_DATA cs))
     = (if \<exists>b\<in>set cs. summary_line b then [(STREAMING_DATA, SUMMARY_REACHED)] else [])"
proof (induction cs)
  case Nil
  then show ?case by (simp add: transitions_def)
next
  case (Cons c cs)
  show ?case
  proof (cases "summary_line c")
    case True
    then show ?thesis
      using transitions_summary[of cs]
      by (simp add: transform_data transitions_Cons2 states_distinct)
  next
    case False
    with Cons show ?thesis
      by (simp add: transform_data transitions_Cons2)
  qed
qed

text \<open>
  C2, as stated, fails in two places. The first chunk is taken as the header whatever
  it holds: after the chunks \<open>[]\<close> (empty) and \<open>x\<close> the empty chunk has been seen and
  \<open>x\<close> is pushed as a data line all the same. And with no chunk at all the field-name
  event does not occur.
\<close>

theorem classifier_ordering_counterexample:
  "map fst (feed new_extractor ['''', ''x'']) = [[HandleFields ['''']], [PushLine ''x'']] \<and>
   events [] = []"
proof -
  have "convertDate ''x'' = ''x''" by code_simp
  then show ?thesis
    by (simp add: transform_def new_extractor_def summary_line_def events_def)
qed

text \<open>
  C2, as amended: for every sequence of at least one chunk, the field-name event occurs
  exactly once, as the first event of all, with the fields of the first chunk; a chunk
  other than the first that is empty or begins with a comma is not pushed as a data
  line (it gives no event when it is the first such chunk, and the end-of-stream signal
  when one has come before), and every chunk after it gives the end-of-stream signal
  and nothing else, so that no data line occurs from that chunk on; and the state
  changes once from header to data, at the first chunk, then once from data to summary
  if a later chunk is empty or begins with a comma, and never otherwise.
\<close>

theorem classifier_ordering:
  "(\<exists>evs. events (chunk # chunks) = HandleFields (split_comma chunk) # evs \<and>
          (\<forall>e\<in>set evs. \<forall>names. e \<noteq> HandleFields names)) \<and>
   (summary_line b \<longrightarrow>
      map fst (feed new_extractor (chunk # pre @ b # post))
        = map fst (feed new_extractor (chunk # pre))
          @ (if \<exists>c\<in>set pre. summary_line c then [PushNull] else [])
          # replicate (length post) [PushNull]) \<and>
   transitions (new_extractor # map snd (feed new_extractor (chunk # chunks)))
     = (if \<exists>b\<in>set chunks. summary_line b
        then [(SCANNING_HEADER, STREAMING_DATA), (STREAMING_DATA, SUMMARY_REACHED)]
        else [(SCANNING_HEADER, STREAMING_DATA)])"
proof (intro conjI impI)
  have "events (chunk # chunks)
          = HandleFields (split_comma chunk) # concat (map fst (feed STREAMING_DATA chunks))"
    by (simp add: events_def transform_header)
  moreover
  have "\<forall>e\<in>set (concat (map fst (feed STREAMING_DATA chunks))). \<forall>names. e \<noteq> HandleFields names"
    using events_after_header[of _ STREAMING_DATA chunks] by blast
  ultimately show "\<exists>evs. events (chunk # chunks) = HandleFields (split_comma chunk) # evs \<and>
          (\<forall>e\<in>set evs. \<forall>names. e \<noteq> HandleFields names)"
    by blast
next
  assume b: "summary_line b"
  have "feed new_extractor (chunk # pre @ b # post)
          = feed new_extractor ((chunk # pre) @ b # post)"
    by simp
  also have "\<dots> = feed new_extractor (chunk # pre)
                    @ ((if \<exists>c\<in>set pre. summary_line c then [PushNull] else []), SUMMARY_REACHED)
                    # feed SUMMARY_REACHED post"
    unfolding feed_append feed_boundary[OF b] ..
  finally show "map fst (feed new_extractor (chunk # pre @ b # post))
        = map fst (feed new_extractor (chunk # pre))
          @ (if \<exists>c\<in>set pre. summary_line c then [PushNull] else [])
          # replicate (length post) [PushNull]"
    by (simp add: feed_summary map_replicate_const comp_def)
next
  show "transitions (new_extractor # map snd (feed new_extractor (chunk # chunks)))
     = (if \<exists>b\<in>set chunks. summary_line b
        then [(SCANNING_HEADER, STREAMING_DATA), (STREAMING_DATA, SUMMARY_REACHED)]
        else [(SCANNING_HEADER, STREAMING_DATA)])"
    unfolding feed_header using transitions_data[of chunks]
    by (simp add: transitions_Cons2 states_distinct)
qed

theorem classifier_ordering_witness:
  "summary_line '''' \<and> summary_line '',6'' \<and>
   map fst (feed new_extractor (''h1,h2'' # [''a,1''] @ '''' # [''total,5'', '',6'']))
     = [[HandleFields [''h1'', ''h2'']], [PushLine ''a,1''], [], [PushNull], [PushNull]] \<and>
   map fst (feed new_extractor (''h1,h2'' # [''a,1'', '''', ''total,5''] @ '',6'' # [''x'']))
     = map fst (feed new_extractor (''h1,h2'' # [''a,1'', '''', ''total,5'']))
       @ [PushNull] # [[PushNull]] \<and>
   transitions (new_extractor #
       map snd (feed new_extractor (''h1,h2'' # [''a,1'', '''', ''total,5'', '',6''])))
     = [(SCANNING_HEADER, STREAMING_DATA), (STREAMING_DATA, SUMMARY_REACHED)]"
proof -
  have h: "summary_line ''''" "summary_line '',6''" "\<not> summary_line ''a,1''"
    by (simp_all add: summary_line_def)
  have ex: "\<exists>b\<in>set [''a,1'', '''', ''total,5'', '',6'']. summary_line b"
    using h by simp
  have ex2: "\<exists>c\<in>set [''a,1'', '''', ''total,5'']. summary_line c"
    using h by simp
  have nex: "\<not> (\<exists>c\<in>set [''a,1'']. summary_line c)"
    using h by simp
  have cv: "convertDate ''a,1'' = ''a,1''" by code_simp
  have pre: "map fst (feed new_extractor (''h1,h2'' # [''a,1'']))
               = [[HandleFields [''h1'', ''h2'']], [PushLine ''a,1'']]"
    using h(3) by (simp add: transform_header transform_data cv)
  from classifier_ordering[of "''h1,h2''" "[''a,1'', '''', ''total,5'', '',6'']"
      "''''" "[''a,1'']" "[''total,5'', '',6'']"] h(1) nex pre
  have first: "map fst (feed new_extractor (''h1,h2'' # [''a,1''] @ '''' # [''total,5'', '',6'']))
     = [[HandleFields [''h1'', ''h2'']], [PushLine ''a,1''], [], [PushNull], [PushNull]]"
    by (simp add: numeral_2_eq_2)
  from classifier_ordering[of "''h1,h2''" "[''a,1'', '''', ''total,5'', '',6'']"
      "'',6''" "[''a,1'', '''', ''total,5'']" "[''x'']"] h(2) ex2
  have second:
    "map fst (feed new_extractor (''h1,h2'' # [''a,1'', '''', ''total,5''] @ '',6'' # [''x'']))
     = map fst (feed new_extractor (''h1,h2'' # [''a,1'', '''', ''total,5'']))
       @ [PushNull] # [[PushNull]]"
    by simp
  from classifier_ordering[of "''h1,h2''" "[''a,1'', '''', ''total,5'', '',6'']"] ex
  have third: "transitions (new_extractor #
       map snd (feed new_extractor (''h1,h2'' # [''a,1'', '''', ''total,5'', '',6''])))
     = [(SCANNING_HEADER, STREAMING_DATA), (STREAMING_DATA, SUMMARY_REACHED)]"
    by simp
  from h first second third show ?thesis by blast
qed

subsection \<open>The scan of getReports\<close>

text \<open>The first check of the stop chain never fires: the set has no \<^verbatim>\<open>length\<close>.\<close>

lemma stop_iff:
  "stop today l s \<longleftrightarrow>
     (case latestDate s of None \<Rightarrow> True | Some t \<Rightarrow> as_days (today - t) > l)"
  by (simp add: stop_def set_length_def split: option.splits)

lemma visit_not_available: "state r \<noteq> REPORT_AVAILABLE \<Longrightarrow> visit tf f r s = s"
  by (simp add: visit_def)

lemma visit_required: "requiredDates (visit tf f r s) \<subseteq> requiredDates s"
  by (auto simp: visit_def assign_def Let_def)

lemma visit_required_eq:
  "requiredDates (visit tf f r s) =
     (if state r = REPORT_AVAILABLE then requiredDates s - {tf (reportDataEndTimeMs r) f}
      else requiredDates s)"
  by (auto simp: visit_def assign_def Let_def)

text \<open>
  A visit writes under the date of an available record that is still required: a key,
  or for \<^verbatim>\<open>__proto__\<close> the prototype.
\<close>

lemma visit_slot:
  "slot (visit tf f r s) d =
     (if state r = REPORT_AVAILABLE \<and> tf (reportDataEndTimeMs r) f = d \<and> d \<in> requiredDates s
      then Some \<lparr>url = googleCloudStoragePath r, file_key = reportId r\<rparr>
      else slot s d)"
  by (auto simp: visit_def assign_def slot_def Let_def)

lemma visit_own_proto: "reports (visit tf f r s) ''__proto__'' = reports s ''__proto__''"
  by (auto simp: visit_def assign_def Let_def)

lemma visit_latest:
  "latestDate (visit tf f r s) =
     (if state r = REPORT_AVAILABLE then Some (reportDataEndTimeMs r) else latestDate s)"
  by (auto simp: visit_def assign_def Let_def)

lemma visit_disjoint:
  "dom (reports s) \<inter> requiredDates s = {} \<Longrightarrow>
   dom (reports (visit tf f r s)) \<inter> requiredDates (visit tf f r s) = {}"
  by (auto simp: visit_def assign_def Let_def split: if_splits)

lemma scan_required:
  "requiredDates (fst (scan_reports today tf l f rs s)) \<subseteq> requiredDates s"
proof (induction rs arbitrary: s)
  case Nil
  then show ?case by simp
next
  case (Cons r rs)
  show ?case
    using Cons.IH[of "visit tf f r s"] visit_required[of tf f r s]
    by (auto simp: Let_def)
qed

text \<open>No key \<^verbatim>\<open>__proto__\<close> is ever created.\<close>

lemma scan_own_proto:
  "reports (fst (scan_reports today tf l f rs s)) ''__proto__'' = reports s ''__proto__''"
  by (induction rs arbitrary: s) (simp_all add: Let_def visit_own_proto)

text \<open>The scan changes the result only under the dates it removes from the set.\<close>

lemma scan_frame_slot:
  "d \<notin> requiredDates s - requiredDates (fst (scan_reports today tf l f rs s)) \<Longrightarrow>
   slot (fst (scan_reports today tf l f rs s)) d = slot s d"
proof (induction rs arbitrary: s)
  case Nil
  then show ?case by simp
next
  case (Cons r rs)
  let ?s' = "visit tf f r s"
  show ?case
  proof (cases "stop today l ?s'")
    case True
    with Cons.prems show ?thesis
      by (auto simp: Let_def visit_slot visit_required_eq split: if_splits)
  next
    case False
    then have eq: "fst (scan_reports today tf l f (r # rs) s)
                     = fst (scan_reports today tf l f rs ?s')"
      by (simp add: Let_def)
    have sub: "requiredDates (fst (scan_reports today tf l f rs ?s')) \<subseteq> requiredDates ?s'"
      by (rule scan_required)
    from Cons.prems eq
    have d: "d \<notin> requiredDates s - requiredDates (fst (scan_reports today tf l f rs ?s'))"
      by simp
    with visit_required[of tf f r s]
    have "d \<notin> requiredDates ?s' - requiredDates (fst (scan_reports today tf l f rs ?s'))"
      by auto
    then have "slot (fst (scan_reports today tf l f rs ?s')) d = slot ?s' d"
      by (rule Cons.IH)
    moreover have "slot ?s' d = slot s d"
      using d sub by (auto simp: visit_slot visit_required_eq split: if_splits)
    ultimately show ?thesis using eq by simp
  qed
qed

lemma scan_frame:
  assumes "d \<notin> requiredDates s - requiredDates (fst (scan_reports today tf l f rs s))"
  shows "reports (fst (scan_reports today tf l f rs s)) d = reports s d"
proof (cases "d = ''__proto__''")
  case True
  then show ?thesis by (simp add: scan_own_proto)
next
  case False
  with scan_frame_slot[OF assms] show ?thesis by (simp add: slot_def)
qed

text \<open>
  A date the scan removes is stored with the first available record of that date in
  the listing.
\<close>

lemma scan_matched:
  "d \<in> requiredDates s - requiredDates (fst (scan_reports today tf l f rs s)) \<Longrightarrow>
   \<exists>r. find (dated tf f d) rs = Some r \<and>
       slot (fst (scan_reports today tf l f rs s)) d
         = Some \<lparr>url = googleCloudStoragePath r, file_key = reportId r\<rparr>"
proof (induction rs arbitrary: s)
  case Nil
  then show ?case by simp
next
  case (Cons r rs)
  let ?s' = "visit tf f r s"
  show ?case
  proof (cases "dated tf f d r")
    case True
    with Cons.prems have "d \<notin> requiredDates ?s'"
      by (auto simp: visit_required_eq dated_def)
    then have "d \<notin> requiredDates ?s' - requiredDates (fst (scan_reports today tf l f rs ?s'))"
      by simp
    then have "slot (fst (scan_reports today tf l f rs ?s')) d = slot ?s' d"
      by (rule scan_frame_slot)
    moreover
    have "slot ?s' d = Some \<lparr>url = googleCloudStoragePath r, file_key = reportId r\<rparr>"
      using True Cons.prems by (auto simp: visit_slot dated_def)
    ultimately show ?thesis using True
      by (auto simp: Let_def)
  next
    case False
    then have keep: "d \<in> requiredDates ?s' \<longleftrightarrow> d \<in> requiredDates s"
      by (auto simp: visit_required_eq dated_def)
    show ?thesis
    proof (cases "stop today l ?s'")
      case True
      with Cons.prems keep show ?thesis by (simp add: Let_def)
    next
      case nstop: False
      with Cons.prems keep
      have "d \<in> requiredDates ?s' - requiredDates (fst (scan_reports today tf l f rs ?s'))"
        by (simp add: Let_def)
      from Cons.IH[OF this] False nstop show ?thesis by (simp add: Let_def)
    qed
  qed
qed

lemma scan_dom:
  "dom (reports (fst (scan_reports today tf l f rs s)))
     = dom (reports s) \<union>
       (requiredDates s - requiredDates (fst (scan_reports today tf l f rs s)) - {''__proto__''})"
  (is "dom (reports ?t) = _")
proof (rule set_eqI)
  fix d
  show "d \<in> dom (reports ?t) \<longleftrightarrow>
        d \<in> dom (reports s) \<union> (requiredDates s - requiredDates ?t - {''__proto__''})"
  proof (cases "d \<in> requiredDates s - requiredDates ?t - {''__proto__''}")
    case True
    then have "d \<in> requiredDates s - requiredDates ?t" and "d \<noteq> ''__proto__''" by auto
    from scan_matched[OF this(1)] this(2) True show ?thesis by (auto simp: slot_def)
  next
    case False
    then have "d = ''__proto__'' \<or> d \<notin> requiredDates s - requiredDates ?t" by auto
    then have "reports ?t d = reports s d"
      using scan_own_proto[of today tf l f rs s] scan_frame[of d s today tf l f rs] by auto
    with False show ?thesis by (auto simp: dom_def)
  qed
qed


lemmas example_defs =
  getReports_def response_reports_def visit_def assign_def stop_def set_length_def as_days_def
  REPORT_AVAILABLE_def done_0602_def done_0601_def running_0603_def failed_0531_def
  iso_day_def june_4th_def




subsection \<open>The lookback window\<close>

lemma scan_extends:
  assumes "dom (reports s) \<inter> requiredDates s = {}"
  shows "reports s \<subseteq>\<^sub>m reports (fst (scan_reports today tf l f rs s))"
  unfolding map_le_def
proof
  fix d assume "d \<in> dom (reports s)"
  with assms have "d \<notin> requiredDates s - requiredDates (fst (scan_reports today tf l f rs s))"
    by auto
  from scan_frame[OF this] show "reports s d = reports (fst (scan_reports today tf l f rs s)) d"
    by simp
qed

lemma stop_mono: "l1 \<le> l2 \<Longrightarrow> stop today l2 s \<Longrightarrow> stop today l1 s"
  by (auto simp: stop_iff split: option.splits)

text \<open>The scan with the smaller window stops where the other one stops, or before.\<close>

lemma scan_lookback_mono:
  assumes "l1 \<le> l2" "dom (reports s) \<inter> requiredDates s = {}"
  shows "reports (fst (scan_reports today tf l1 f rs s))
           \<subseteq>\<^sub>m reports (fst (scan_reports today tf l2 f rs s))"
  using assms(2)
proof (induction rs arbitrary: s)
  case Nil
  then show ?case by simp
next
  case (Cons r rs)
  let ?s' = "visit tf f r s"
  have dis: "dom (reports ?s') \<inter> requiredDates ?s' = {}"
    using Cons.prems by (rule visit_disjoint)
  consider (both) "stop today l2 ?s'" | (first) "stop today l1 ?s'" "\<not> stop today l2 ?s'"
    | (none) "\<not> stop today l1 ?s'" "\<not> stop today l2 ?s'"
    by blast
  then show ?case
  proof cases
    case both
    with stop_mono[OF assms(1)] show ?thesis by (simp add: Let_def)
  next
    case first
    with scan_extends[OF dis] show ?thesis by (simp add: Let_def)
  next
    case none
    with Cons.IH[OF dis] show ?thesis by (simp add: Let_def)
  qed
qed

text \<open>
  C4. With the listing, the set of required dates, the date format and the current
  instant fixed, and \<open>l1 \<le> l2\<close>: the calls with the windows \<open>l1\<close> and \<open>l2\<close> fail with the
  same error or both return, and then the result for \<open>l1\<close> is contained in the result
  for \<open>l2\<close>, every date of the first being mapped to the same value in the second.
\<close>

theorem lookback_monotone:
  assumes "l1 \<le> l2"
  shows "rel_sum (=) (\<lambda>a b. reports (fst a) \<subseteq>\<^sub>m reports (fst b))
           (getReports today toFormat response required l1 dateFormat)
           (getReports today toFormat response required l2 dateFormat)"
proof (cases "response_reports response")
  case (Inl e)
  then show ?thesis by (simp add: getReports_def)
next
  case (Inr rs)
  then show ?thesis
    using scan_lookback_mono[OF assms,
        of "\<lparr>reports = Map.empty, requiredDates = required, latestDate = None, reports_proto = None\<rparr>"]
    by (simp add: getReports_def)
qed

theorem lookback_monotone_witness:
  "(1 :: rat) \<le> 7 \<and>
   rel_sum (=) (\<lambda>a b. reports (fst a) \<subseteq>\<^sub>m reports (fst b))
     (getReports june_4th iso_day (Some (Some [done_0602, done_0601]))
        {''2021-06-02'', ''2021-06-01''} 1 ''yyyy-MM-dd'')
     (getReports june_4th iso_day (Some (Some [done_0602, done_0601]))
        {''2021-06-02'', ''2021-06-01''} 7 ''yyyy-MM-dd'') \<and>
   map_sum id (\<lambda>a. dom (reports (fst a)))
     (getReports june_4th iso_day (Some (Some [done_0602, done_0601]))
        {''2021-06-02'', ''2021-06-01''} 1 ''yyyy-MM-dd'') = Inr {''2021-06-02''} \<and>
   map_sum id (\<lambda>a. dom (reports (fst a)))
     (getReports june_4th iso_day (Some (Some [done_0602, done_0601]))
        {''2021-06-02'', ''2021-06-01''} 7 ''yyyy-MM-dd'') = Inr {''2021-06-02'', ''2021-06-01''}"
proof -
  have h: "(1 :: rat) \<le> 7" by simp
  have e1: "map_sum id (\<lambda>a. dom (reports (fst a)))
     (getReports june_4th iso_day (Some (Some [done_0602, done_0601]))
        {''2021-06-02'', ''2021-06-01''} 1 ''yyyy-MM-dd'') = Inr {''2021-06-02''}"
    by (simp add: example_defs)
  have e2: "map_sum id (\<lambda>a. dom (reports (fst a)))
     (getReports june_4th iso_day (Some (Some [done_0602, done_0601]))
        {''2021-06-02'', ''2021-06-01''} 7 ''yyyy-MM-dd'') = Inr {''2021-06-02'', ''2021-06-01''}"
    by (auto simp add: example_defs)
  from lookback_monotone[OF h, of june_4th iso_day "Some (Some [done_0602, done_0601])"
      "{''2021-06-02'', ''2021-06-01''}" "''yyyy-MM-dd''"] h e1 e2
  show ?thesis by blast
qed

subsection \<open>Listings without an available report\<close>

text \<open>
  C7. For a listing that has a first record and no record in state \<open>DONE\<close>,
  \<open>getReports\<close> returns the empty result and leaves the set of required dates as it
  was; the loop breaks at the stop check of the first record, all records after the
  first being left unvisited.
\<close>

theorem no_available_report:
  assumes "rs \<noteq> []" "\<forall>r\<in>set rs. state r \<noteq> REPORT_AVAILABLE"
  shows "getReports today toFormat (Some (Some rs)) required lookbackDays dateFormat
           = Inr (\<lparr>reports = Map.empty, requiredDates = required, latestDate = None, reports_proto = None\<rparr>, tl rs)"
proof -
  from assms(1) obtain r rest where rs: "rs = r # rest" by (cases rs) auto
  with assms(2) have "state r \<noteq> REPORT_AVAILABLE" by simp
  then show ?thesis
    by (simp add: rs getReports_def response_reports_def visit_not_available stop_iff)
qed

theorem no_available_report_witness:
  "[running_0603, failed_0531, failed_0531] \<noteq> [] \<and>
   state running_0603 \<noteq> REPORT_AVAILABLE \<and> state failed_0531 \<noteq> REPORT_AVAILABLE \<and>
   getReports june_4th iso_day (Some (Some [running_0603, failed_0531, failed_0531]))
       {''2021-06-01''} 7 ''yyyy-MM-dd''
     = Inr (\<lparr>reports = Map.empty, requiredDates = {''2021-06-01''}, latestDate = None, reports_proto = None\<rparr>,
            [failed_0531, failed_0531])"
proof -
  have h1: "[running_0603, failed_0531, failed_0531] \<noteq> []" by simp
  have h2: "state running_0603 \<noteq> REPORT_AVAILABLE" "state failed_0531 \<noteq> REPORT_AVAILABLE"
    by (simp_all add: running_0603_def failed_0531_def REPORT_AVAILABLE_def)
  then have h3: "\<forall>r\<in>set [running_0603, failed_0531, failed_0531]. state r \<noteq> REPORT_AVAILABLE"
    by simp
  from no_available_report[OF h1 h3, of june_4th iso_day "{''2021-06-01''}" 7 "''yyyy-MM-dd''"] h2
  show ?thesis by simp
qed

subsection \<open>Records that are not available\<close>

text \<open>
  Once an available record has been visited and the loop has gone on, a record that is
  not available changes no variable and no stop check.
\<close>

lemma scan_filter:
  assumes "latestDate s = Some t" "\<not> as_days (today - t) > l"
  shows "fst (scan_reports today tf l f rs s)
           = fst (scan_reports today tf l f (filter (\<lambda>r. state r = REPORT_AVAILABLE) rs) s)"
  using assms
proof (induction rs arbitrary: s t)
  case Nil
  then show ?case by simp
next
  case (Cons r rs)
  show ?case
  proof (cases "state r = REPORT_AVAILABLE")
    case False
    then have "visit tf f r s = s" by (rule visit_not_available)
    moreover have "\<not> stop today l s" using Cons.prems by (simp add: stop_iff)
    ultimately show ?thesis using False Cons.IH[OF Cons.prems] by (simp add: Let_def)
  next
    case True
    let ?s' = "visit tf f r s"
    have lat: "latestDate ?s' = Some (reportDataEndTimeMs r)"
      using True by (simp add: visit_latest)
    show ?thesis
    proof (cases "stop today l ?s'")
      case True
      with \<open>state r = REPORT_AVAILABLE\<close> show ?thesis by (simp add: Let_def)
    next
      case False
      with lat have "\<not> as_days (today - reportDataEndTimeMs r) > l" by (simp add: stop_iff)
      from Cons.IH[OF lat this] False True show ?thesis by (simp add: Let_def)
    qed
  qed
qed

lemma scan_head_available:
  assumes "state r = REPORT_AVAILABLE"
  shows "fst (scan_reports today tf l f (r # rs) s)
           = fst (scan_reports today tf l f (r # filter (\<lambda>r. state r = REPORT_AVAILABLE) rs) s)"
proof (cases "stop today l (visit tf f r s)")
  case True
  then show ?thesis by (simp add: Let_def)
next
  case False
  have lat: "latestDate (visit tf f r s) = Some (reportDataEndTimeMs r)"
    using assms by (simp add: visit_latest)
  with False have "\<not> as_days (today - reportDataEndTimeMs r) > l" by (simp add: stop_iff)
  from scan_filter[OF lat this] False show ?thesis by (simp add: Let_def)
qed

text \<open>
  C3, as stated, fails: a record that is not available, put in front of the listing,
  ends the scan at once (\<^verbatim>\<open>latestDate === null\<close> at the first stop check). The
  listing with the one record \<open>done_0601\<close> resolves the date; with \<open>running_0603\<close>
  before it the result is empty.
\<close>

theorem unavailable_first_counterexample:
  "map_sum id (\<lambda>a. dom (reports (fst a)))
     (getReports june_4th iso_day (Some (Some [done_0601])) {''2021-06-01''} 7 ''yyyy-MM-dd'')
     = Inr {''2021-06-01''} \<and>
   map_sum id (\<lambda>a. dom (reports (fst a)))
     (getReports june_4th iso_day (Some (Some [running_0603, done_0601])) {''2021-06-01''} 7
        ''yyyy-MM-dd'')
     = Inr {}"
  by (simp add: example_defs)

text \<open>
  C3, as amended: records that are not in state \<open>DONE\<close> are inert to the scan wherever
  they stand after an available first record. Two listings that both begin with a
  \<open>DONE\<close> record and have the same \<open>DONE\<close> records in the same order give the same
  result, the same set of required dates on return and the same error, whatever the
  records that are not \<open>DONE\<close>, the required dates, the window and the date format.
\<close>

theorem unavailable_inert_after_first:
  assumes "xs \<noteq> []" "state (hd xs) = REPORT_AVAILABLE"
      and "ys \<noteq> []" "state (hd ys) = REPORT_AVAILABLE"
      and "filter (\<lambda>r. state r = REPORT_AVAILABLE) xs = filter (\<lambda>r. state r = REPORT_AVAILABLE) ys"
  shows "map_sum id fst (getReports today toFormat (Some (Some xs)) required lookbackDays dateFormat)
       = map_sum id fst (getReports today toFormat (Some (Some ys)) required lookbackDays dateFormat)"
proof -
  from assms(1,2) obtain x xs' where xs: "xs = x # xs'" and x: "state x = REPORT_AVAILABLE"
    by (cases xs) auto
  from assms(3,4) obtain y ys' where ys: "ys = y # ys'" and y: "state y = REPORT_AVAILABLE"
    by (cases ys) auto
  from assms(5) xs ys x y
  have eq: "x # filter (\<lambda>r. state r = REPORT_AVAILABLE) xs'
              = y # filter (\<lambda>r. state r = REPORT_AVAILABLE) ys'"
    by simp
  let ?s0 = "\<lparr>reports = Map.empty, requiredDates = required, latestDate = None, reports_proto = None\<rparr>"
  have "fst (scan_reports today toFormat lookbackDays dateFormat xs ?s0)
      = fst (scan_reports today toFormat lookbackDays dateFormat
               (x # filter (\<lambda>r. state r = REPORT_AVAILABLE) xs') ?s0)"
    unfolding xs using x by (rule scan_head_available)
  also have "\<dots> = fst (scan_reports today toFormat lookbackDays dateFormat
               (y # filter (\<lambda>r. state r = REPORT_AVAILABLE) ys') ?s0)"
    using eq by simp
  also have "\<dots> = fst (scan_reports today toFormat lookbackDays dateFormat ys ?s0)"
    unfolding ys using y by (rule scan_head_available[symmetric])
  finally show ?thesis using assms(1,3)
    by (simp add: getReports_def response_reports_def)
qed

theorem unavailable_inert_after_first_witness:
  "state (hd [done_0602, running_0603, done_0601, failed_0531]) = REPORT_AVAILABLE \<and>
   state (hd [done_0602, done_0601]) = REPORT_AVAILABLE \<and>
   filter (\<lambda>r. state r = REPORT_AVAILABLE) [done_0602, running_0603, done_0601, failed_0531]
     = filter (\<lambda>r. state r = REPORT_AVAILABLE) [done_0602, done_0601] \<and>
   map_sum id fst (getReports june_4th iso_day
       (Some (Some [done_0602, running_0603, done_0601, failed_0531]))
       {''2021-06-01''} 7 ''yyyy-MM-dd'')
     = map_sum id fst (getReports june_4th iso_day (Some (Some [done_0602, done_0601]))
       {''2021-06-01''} 7 ''yyyy-MM-dd'')"
proof -
  have h2: "state (hd [done_0602, running_0603, done_0601, failed_0531]) = REPORT_AVAILABLE"
    by (simp add: done_0602_def REPORT_AVAILABLE_def)
  have h4: "state (hd [done_0602, done_0601]) = REPORT_AVAILABLE"
    by (simp add: done_0602_def REPORT_AVAILABLE_def)
  have h5: "filter (\<lambda>r. state r = REPORT_AVAILABLE)
              [done_0602, running_0603, done_0601, failed_0531]
     = filter (\<lambda>r. state r = REPORT_AVAILABLE) [done_0602, done_0601]"
    by (simp add: done_0602_def done_0601_def running_0603_def failed_0531_def
        REPORT_AVAILABLE_def)
  have h1: "[done_0602, running_0603, done_0601, failed_0531] \<noteq> []" by simp
  have h3: "[done_0602, done_0601] \<noteq> []" by simp
  from unavailable_inert_after_first[OF h1 h2 h3 h4 h5,
      of june_4th iso_day "{''2021-06-01''}" 7 "''yyyy-MM-dd''"] h2 h4 h5
  show ?thesis by blast
qed

subsection \<open>Draining the set of required dates\<close>

text \<open>
  In a listing sorted from the most recent record to the oldest, the scan reaches every
  available record inside the window, provided it gets past the first stop check.
\<close>

lemma scan_reaches:
  assumes "sorted_wrt (\<lambda>a b. reportDataEndTimeMs b \<le> reportDataEndTimeMs a) rs"
      and "r \<in> set rs" "state r = REPORT_AVAILABLE"
      and "\<not> as_days (today - reportDataEndTimeMs r) > l"
      and "(\<exists>t. latestDate s = Some t \<and> \<not> as_days (today - t) > l)
           \<or> (rs \<noteq> [] \<and> state (hd rs) = REPORT_AVAILABLE)"
  shows "tf (reportDataEndTimeMs r) f \<notin> requiredDates (fst (scan_reports today tf l f rs s))"
  using assms
proof (induction rs arbitrary: s)
  case Nil
  then show ?case by simp
next
  case (Cons x xs)
  let ?s' = "visit tf f x s"
  show ?case
  proof (cases "r = x")
    case True
    then have "tf (reportDataEndTimeMs r) f \<notin> requiredDates ?s'"
      using Cons.prems(3) by (simp add: visit_required_eq)
    moreover
    have "requiredDates (fst (scan_reports today tf l f (x # xs) s)) \<subseteq> requiredDates ?s'"
      using scan_required[of today tf l f xs ?s'] by (auto simp: Let_def)
    ultimately show ?thesis by blast
  next
    case False
    with Cons.prems(2) have rin: "r \<in> set xs" by simp
    from Cons.prems(1) rin have le: "reportDataEndTimeMs r \<le> reportDataEndTimeMs x"
      and sorted: "sorted_wrt (\<lambda>a b. reportDataEndTimeMs b \<le> reportDataEndTimeMs a) xs"
      by auto
    have mono: "as_days (today - reportDataEndTimeMs x) \<le> as_days (today - reportDataEndTimeMs r)"
      using le by (simp add: as_days_def divide_right_mono)
    have inv: "\<exists>t. latestDate ?s' = Some t \<and> \<not> as_days (today - t) > l"
    proof (cases "state x = REPORT_AVAILABLE")
      case True
      then show ?thesis using mono Cons.prems(4) by (simp add: visit_latest)
    next
      case False
      with Cons.prems(5) show ?thesis by (simp add: visit_latest)
    qed
    then have nstop: "\<not> stop today l ?s'" by (auto simp: stop_iff)
    from Cons.IH[OF sorted rin Cons.prems(3,4), of ?s'] inv
    have "tf (reportDataEndTimeMs r) f \<notin> requiredDates (fst (scan_reports today tf l f xs ?s'))"
      by blast
    with nstop show ?thesis by (simp add: Let_def)
  qed
qed

text \<open>
  What holds of the set on return: in a listing sorted from the most recent record to
  the oldest by the data-end timestamps, the only times the scan reads, and beginning
  with an available record, every required date that is the date of an available record
  inside the window is removed, so that the set is empty on return when all of them are.
\<close>

lemma required_dates_drained:
  assumes "state r0 = REPORT_AVAILABLE"
      and "sorted_wrt (\<lambda>a b. reportDataEndTimeMs b \<le> reportDataEndTimeMs a) (r0 # rs)"
      and "\<forall>d\<in>required. \<exists>r\<in>set (r0 # rs). state r = REPORT_AVAILABLE \<and>
              toFormat (reportDataEndTimeMs r) dateFormat = d \<and>
              as_days (today - reportDataEndTimeMs r) \<le> lookbackDays"
  shows "\<exists>s rest. getReports today toFormat (Some (Some (r0 # rs))) required lookbackDays dateFormat
                    = Inr (s, rest) \<and>
                  requiredDates s = {} \<and> dom (reports s) = required - {''__proto__''}"
proof -
  let ?s0 = "\<lparr>reports = Map.empty, requiredDates = required, latestDate = None,
              reports_proto = None\<rparr>"
  let ?res = "scan_reports today toFormat lookbackDays dateFormat (r0 # rs) ?s0"
  have run: "getReports today toFormat (Some (Some (r0 # rs))) required lookbackDays dateFormat
               = Inr (fst ?res, snd ?res)"
    by (simp add: getReports_def response_reports_def)
  have sub: "requiredDates (fst ?res) \<subseteq> required"
    using scan_required[of today toFormat lookbackDays dateFormat "r0 # rs" ?s0] by simp
  have "d \<notin> requiredDates (fst ?res)" if "d \<in> required" for d
  proof -
    from assms(3) that obtain r where r: "r \<in> set (r0 # rs)" "state r = REPORT_AVAILABLE"
      "toFormat (reportDataEndTimeMs r) dateFormat = d"
      "as_days (today - reportDataEndTimeMs r) \<le> lookbackDays"
      by blast
    from r(4) have "\<not> as_days (today - reportDataEndTimeMs r) > lookbackDays" by simp
    from scan_reaches[OF assms(2) r(1,2) this, of ?s0 toFormat dateFormat] assms(1) r(3)
    show ?thesis by simp
  qed
  with sub have empty: "requiredDates (fst ?res) = {}" by blast
  have "dom (reports (fst ?res)) = required - {''__proto__''}"
    using scan_dom[of today toFormat lookbackDays dateFormat "r0 # rs" ?s0] empty by simp
  with run empty show ?thesis by blast
qed

text \<open>
  C1. The property: once every requested date has been matched, the scan halts and
  processes no further record, and the set of required dates is empty on return.

  The code does not halt there. Its check for the drained set reads
  \<^verbatim>\<open>requiredDates.length\<close>, which a \<^verbatim>\<open>Set\<close> does not have, so the break commented
  \<^verbatim>\<open>no required dates remaining\<close> is never taken: whether the loop breaks depends on
  \<^verbatim>\<open>latestDate\<close> alone, whatever the set holds. In the listing \<open>done_0602\<close>,
  \<open>done_0601\<close>, with the one required date 2021-06-02 and a window of seven days, the
  set is empty after the first record; the loop does not break and visits the second
  record, older than the matched date: at the exit \<^verbatim>\<open>latestDate\<close> is the timestamp of
  \<open>done_0601\<close> and no record is left unvisited. The set is empty on return.
\<close>

theorem set_drain_not_halting:
  "stop today lookbackDays s
     = (case latestDate s of None \<Rightarrow> True | Some t \<Rightarrow> lookbackDays < as_days (today - t)) \<and>
   requiredDates (visit iso_day ''yyyy-MM-dd'' done_0602
       \<lparr>reports = Map.empty, requiredDates = {''2021-06-02''}, latestDate = None,
        reports_proto = None\<rparr>) = {} \<and>
   \<not> stop june_4th 7 (visit iso_day ''yyyy-MM-dd'' done_0602
       \<lparr>reports = Map.empty, requiredDates = {''2021-06-02''}, latestDate = None,
        reports_proto = None\<rparr>) \<and>
   getReports june_4th iso_day (Some (Some [done_0602, done_0601])) {''2021-06-02''} 7
       ''yyyy-MM-dd''
     = Inr (\<lparr>reports = [''2021-06-02'' \<mapsto> \<lparr>url = ''U2'', file_key = ''F2''\<rparr>],
             requiredDates = {}, latestDate = Some 1622505600000, reports_proto = None\<rparr>, [])"
proof -
  have "stop today lookbackDays s
     = (case latestDate s of None \<Rightarrow> True | Some t \<Rightarrow> lookbackDays < as_days (today - t))"
    by (simp add: stop_def set_length_def split: option.splits)
  then show ?thesis by (simp add: example_defs)
qed

subsection \<open>extractFilename\<close>

text \<open>What the matcher returns is a way of reading the text as the pattern.\<close>

lemma rmatch_sound:
  "rmatch its s = Some gs \<Longrightarrow>
   (\<exists>rest. s = inst its gs @ rest) \<and> length gs = length (filter (\<lambda>i. i = Group) its)"
proof (induction its s arbitrary: gs rule: rmatch.induct)
  case (1 s)
  then show ?case by simp
next
  case (2 l its s)
  from "2.prems" have l: "take (length l) s = l" and m: "rmatch its (drop (length l) s) = Some gs"
    by (auto split: if_splits)
  from "2.IH"[OF l m] obtain rest where "drop (length l) s = inst its gs @ rest"
    and len: "length gs = length (filter (\<lambda>i. i = Group) its)" by blast
  with l have "s = l @ inst its gs @ rest" by (metis append_take_drop_id)
  with len show ?case by simp
next
  case (3 its)
  then show ?case by auto
next
  case (4 its c cs)
  show ?case
  proof (cases "line_terminator c")
    case True
    with "4.prems" obtain gs' where "rmatch its (c # cs) = Some gs'" "gs = [] # gs'" by auto
    with "4.IH"(1)[OF True] show ?thesis by auto
  next
    case False
    show ?thesis
    proof (cases "rmatch (Group # its) cs")
      case None
      with False "4.prems" obtain gs' where "rmatch its (c # cs) = Some gs'" "gs = [] # gs'" by auto
      with "4.IH"(3)[OF False None] show ?thesis by auto
    next
      case (Some hs)
      show ?thesis
      proof (cases hs)
        case Nil
        with Some False "4.prems" obtain gs' where "rmatch its (c # cs) = Some gs'" "gs = [] # gs'"
          by auto
        with "4.IH"(4)[OF False Some Nil] show ?thesis by auto
      next
        case (Cons g hs')
        with Some False "4.prems" have gs: "gs = (c # g) # hs'" by simp
        from "4.IH"(2)[OF False Some] Cons gs show ?thesis by auto
      qed
    qed
  qed
qed

lemma exec_sound:
  "exec its s = Some gs \<Longrightarrow>
   (\<exists>pre rest. s = pre @ inst its gs @ rest) \<and> length gs = length (filter (\<lambda>i. i = Group) its)"
proof (induction s)
  case Nil
  with rmatch_sound[of its "[]" gs] show ?case by (metis append_Nil exec.simps(1))
next
  case (Cons c cs)
  show ?case
  proof (cases "rmatch its (c # cs)")
    case None
    with Cons.prems have "exec its cs = Some gs" by simp
    from Cons.IH[OF this] obtain pre rest where "cs = pre @ inst its gs @ rest"
      and len: "length gs = length (filter (\<lambda>i. i = Group) its)" by blast
    then have "c # cs = (c # pre) @ inst its gs @ rest" by simp
    with len show ?thesis by blast
  next
    case (Some hs)
    with Cons.prems have "rmatch its (c # cs) = Some gs" by simp
    from rmatch_sound[OF this] show ?thesis by (metis append_Nil)
  qed
qed

lemma length7:
  assumes "length gs = 7"
  obtains g1 g2 g3 g4 g5 g6 g7 where "gs = [g1, g2, g3, g4, g5, g6, g7]"
proof -
  from assms obtain g1 t1 where 1: "gs = g1 # t1" "length t1 = 6" by (cases gs) auto
  then obtain g2 t2 where 2: "t1 = g2 # t2" "length t2 = 5" by (cases t1) auto
  then obtain g3 t3 where 3: "t2 = g3 # t3" "length t3 = 4" by (cases t2) auto
  then obtain g4 t4 where 4: "t3 = g4 # t4" "length t4 = 3" by (cases t3) auto
  then obtain g5 t5 where 5: "t4 = g5 # t5" "length t5 = 2" by (cases t4) auto
  then obtain g6 t6 where 6: "t5 = g6 # t6" "length t6 = 1" by (cases t5) auto
  then obtain g7 where 7: "t6 = [g7]" by (cases t6) auto
  from 1 2 3 4 5 6 7 that show thesis by blast
qed

lemma extractFilename_sound:
  assumes "extractFilename u = Inr f"
  shows "f \<noteq> [] \<and> (\<exists>x s2 s3 s4 s5 y. u = storage_location x f s2 s3 s4 s5 y)"
proof -
  from assms obtain gs where ex: "exec GCS_URL_PATTERN u = Some gs"
    by (auto simp: extractFilename_def split: option.splits)
  from exec_sound[OF ex] obtain pre rest where u: "u = pre @ inst GCS_URL_PATTERN gs @ rest"
    and "length gs = 7" by (auto simp: GCS_URL_PATTERN_def)
  then obtain g1 g2 g3 g4 g5 g6 g7 where gs: "gs = [g1, g2, g3, g4, g5, g6, g7]"
    by (auto elim: length7)
  from assms ex gs have f: "g2 = f" "f \<noteq> []"
    by (auto simp: extractFilename_def split: if_splits)
  have "u = storage_location (pre @ g1) f g3 g4 g5 g6 (g7 @ rest)"
    unfolding u gs f(1)[symmetric]
    by (simp add: GCS_URL_PATTERN_def storage_location_def)
  with f show ?thesis by blast
qed

text \<open>
  A group followed by the rest of a pattern: the capture is the longest stretch
  without line terminator after which the rest matches.
\<close>

lemma GCS_tail: "GCS_URL_PATTERN = Group # Lit ''/'' # Group # tail_pat 4"
  by (simp add: GCS_URL_PATTERN_def eval_nat_numeral)

lemma group_None:
  "(\<And>u v. s = u @ v \<Longrightarrow> \<forall>c\<in>set u. \<not> line_terminator c \<Longrightarrow> rmatch its v = None) \<Longrightarrow>
   rmatch (Group # its) s = None"
proof (induction s)
  case Nil
  then show ?case by simp
next
  case (Cons c cs)
  have here: "rmatch its (c # cs) = None" using Cons.prems[of "[]" "c # cs"] by simp
  show ?case
  proof (cases "line_terminator c")
    case True
    with here show ?thesis by simp
  next
    case False
    have "rmatch (Group # its) cs = None"
    proof (rule Cons.IH)
      fix u v assume "cs = u @ v" "\<forall>c\<in>set u. \<not> line_terminator c"
      with False show "rmatch its v = None" using Cons.prems[of "c # u" v] by simp
    qed
    with here False show ?thesis by simp
  qed
qed

lemma group_greedy:
  assumes "\<forall>c\<in>set u. \<not> line_terminator c" "rmatch its v = Some gs"
      and "\<And>u2 v'. u2 \<noteq> [] \<Longrightarrow> v = u2 @ v' \<Longrightarrow> \<forall>c\<in>set u2. \<not> line_terminator c \<Longrightarrow>
             rmatch its v' = None"
  shows "rmatch (Group # its) (u @ v) = Some (u # gs)"
  using assms(1)
proof (induction u)
  case Nil
  show ?case
  proof (cases v)
    case Nil
    with assms(2) show ?thesis by simp
  next
    case (Cons c cs)
    show ?thesis
    proof (cases "line_terminator c")
      case True
      with assms(2) Cons show ?thesis by simp
    next
      case False
      have "rmatch (Group # its) cs = None"
      proof (rule group_None)
        fix u' v' assume "cs = u' @ v'" "\<forall>c\<in>set u'. \<not> line_terminator c"
        with False Cons show "rmatch its v' = None" using assms(3)[of "c # u'" v'] by simp
      qed
      with False assms(2) Cons show ?thesis by simp
    qed
  qed
next
  case (Cons c u)
  then show ?case by simp
qed

lemma group_last: "rmatch [Group] s = Some [takeWhile (\<lambda>c. \<not> line_terminator c) s]"
  by (induction s) auto

lemma group_split:
  "rmatch (Group # its) s = Some gs \<Longrightarrow> \<exists>g gs' v. gs = g # gs' \<and> s = g @ v \<and> rmatch its v = Some gs'"
proof (induction s arbitrary: gs)
  case Nil
  then show ?case by auto
next
  case (Cons c cs)
  show ?case
  proof (cases "\<not> line_terminator c \<and> (\<exists>g hs. rmatch (Group # its) cs = Some (g # hs))")
    case True
    then obtain g hs where r: "rmatch (Group # its) cs = Some (g # hs)" and c: "\<not> line_terminator c"
      by blast
    from Cons.IH[OF r] obtain v where "cs = g @ v" "rmatch its v = Some hs" by auto
    moreover from r c Cons.prems have "gs = (c # g) # hs" by simp
    ultimately show ?thesis by auto
  next
    case False
    with Cons.prems obtain gs' where "rmatch its (c # cs) = Some gs'" "gs = [] # gs'"
      by (auto split: if_splits option.splits list.splits)
    then show ?thesis by auto
  qed
qed

lemma tail_needs:
  "rmatch (tail_pat k) w = Some gs \<Longrightarrow>
   \<exists>a b. w = a @ CHR ''?'' # b \<and> k \<le> count_list a CHR ''_'' \<and> (k = 0 \<longrightarrow> a = ''.csv'')"
proof (induction k arbitrary: w gs)
  case 0
  then have "take 5 w = ''.csv?''" by (auto split: if_splits simp: eval_nat_numeral)
  then have "w = ''.csv?'' @ drop 5 w" by (metis append_take_drop_id)
  then have "w = ''.csv'' @ CHR ''?'' # drop 5 w" by simp
  then show ?case by blast
next
  case (Suc k)
  from Suc.prems have t: "take 1 w = ''_''" and m: "rmatch (Group # tail_pat k) (drop 1 w) = Some gs"
    by (auto split: if_splits)
  from t have w: "w = CHR ''_'' # drop 1 w" by (metis append_Cons append_Nil append_take_drop_id)
  from group_split[OF m] obtain g gs' v where "drop 1 w = g @ v" "rmatch (tail_pat k) v = Some gs'"
    by blast
  with Suc.IH[of v gs'] obtain a b where "drop 1 w = g @ a @ CHR ''?'' # b"
    "k \<le> count_list a CHR ''_''" by auto
  with w have "w = (CHR ''_'' # g @ a) @ CHR ''?'' # b" "Suc k \<le> count_list (CHR ''_'' # g @ a) CHR ''_''"
    by auto
  then show ?case by blast
qed

lemma split_unique:
  assumes "x @ q # y = a @ q # b" "q \<notin> set x" "q \<notin> set y"
  shows "a = x \<and> b = y"
  using assms by (auto simp: append_eq_append_conv2 Cons_eq_append_conv append_eq_Cons_conv)

lemma tail_body_no_q: "\<forall>seg\<in>set segs. CHR ''?'' \<notin> set seg \<Longrightarrow> CHR ''?'' \<notin> set (tail_body segs)"
  by (induction segs) auto

lemma tail_body_count:
  "\<forall>seg\<in>set segs. CHR ''_'' \<notin> set seg \<Longrightarrow> count_list (tail_body segs) CHR ''_'' = length segs"
  by (induction segs) (auto simp: count_list_0_iff)

lemma tail_fail:
  assumes "u2 \<noteq> []" "tail_body segs @ CHR ''?'' # suffix = u2 @ v'"
      and "\<forall>seg\<in>set segs. CHR ''_'' \<notin> set seg \<and> CHR ''?'' \<notin> set seg"
      and "CHR ''?'' \<notin> set suffix"
  shows "rmatch (tail_pat (length segs)) v' = None"
proof (rule ccontr)
  assume "rmatch (tail_pat (length segs)) v' \<noteq> None"
  then obtain gs where "rmatch (tail_pat (length segs)) v' = Some gs" by auto
  from tail_needs[OF this] obtain a b where v': "v' = a @ CHR ''?'' # b"
    and cnt: "length segs \<le> count_list a CHR ''_''" and z: "length segs = 0 \<longrightarrow> a = ''.csv''"
    by blast
  from assms(2) v' have "tail_body segs @ CHR ''?'' # suffix = (u2 @ a) @ CHR ''?'' # b" by simp
  from split_unique[OF this] assms(3,4) have body: "u2 @ a = tail_body segs"
    using tail_body_no_q[of segs] by auto
  show False
  proof (cases segs)
    case Nil
    with z body assms(1) show False by simp
  next
    case (Cons seg segs')
    with body assms(1) have "hd u2 = CHR ''_''"
      by (cases u2) auto
    with assms(1) have "1 \<le> count_list u2 CHR ''_''" by (cases u2) auto
    moreover have "count_list (u2 @ a) CHR ''_'' = length segs"
      unfolding body using assms(3) by (simp add: tail_body_count)
    ultimately show False using cnt by simp
  qed
qed

lemma tail_match:
  assumes "\<forall>seg\<in>set segs. (\<forall>c\<in>set seg. \<not> line_terminator c) \<and>
             CHR ''_'' \<notin> set seg \<and> CHR ''?'' \<notin> set seg"
      and "CHR ''?'' \<notin> set suffix"
  shows "rmatch (tail_pat (length segs)) (tail_body segs @ CHR ''?'' # suffix)
           = Some (segs @ [takeWhile (\<lambda>c. \<not> line_terminator c) suffix])"
  using assms(1)
proof (induction segs)
  case Nil
  then show ?case by (simp add: group_last)
next
  case (Cons seg segs)
  have "rmatch (Group # tail_pat (length segs)) (seg @ tail_body segs @ CHR ''?'' # suffix)
          = Some (seg # segs @ [takeWhile (\<lambda>c. \<not> line_terminator c) suffix])"
  proof (rule group_greedy)
    show "\<forall>c\<in>set seg. \<not> line_terminator c" using Cons.prems by simp
    show "rmatch (tail_pat (length segs)) (tail_body segs @ CHR ''?'' # suffix)
            = Some (segs @ [takeWhile (\<lambda>c. \<not> line_terminator c) suffix])"
      using Cons.IH Cons.prems by simp
    fix u2 v' assume "u2 \<noteq> []" "tail_body segs @ CHR ''?'' # suffix = u2 @ v'"
    then show "rmatch (tail_pat (length segs)) v' = None"
      using Cons.prems assms(2) by (intro tail_fail[of u2 segs suffix v']) auto
  qed
  then show ?case by simp
qed

lemma tail_body_no_slash:
  "\<forall>seg\<in>set segs. CHR ''/'' \<notin> set seg \<Longrightarrow> CHR ''/'' \<notin> set (tail_body segs)"
  by (induction segs) auto

lemma gcs_match:
  assumes "\<forall>c\<in>set prefix. \<not> line_terminator c"
      and "\<forall>c\<in>set filename. \<not> line_terminator c" "CHR ''/'' \<notin> set filename"
      and "\<forall>seg\<in>set segs. (\<forall>c\<in>set seg. \<not> line_terminator c) \<and>
             CHR ''_'' \<notin> set seg \<and> CHR ''?'' \<notin> set seg \<and> CHR ''/'' \<notin> set seg"
      and "CHR ''?'' \<notin> set suffix" "CHR ''/'' \<notin> set suffix"
  shows "rmatch (Group # Lit ''/'' # Group # tail_pat (length segs))
           (prefix @ ''/'' @ filename @ tail_body segs @ CHR ''?'' # suffix)
           = Some (prefix # filename # segs @ [takeWhile (\<lambda>c. \<not> line_terminator c) suffix])"
proof (rule group_greedy)
  let ?t = "tail_body segs @ CHR ''?'' # suffix"
  show "\<forall>c\<in>set prefix. \<not> line_terminator c" by fact
  have inner: "rmatch (Group # tail_pat (length segs)) (filename @ ?t)
          = Some (filename # segs @ [takeWhile (\<lambda>c. \<not> line_terminator c) suffix])"
  proof (rule group_greedy)
    show "\<forall>c\<in>set filename. \<not> line_terminator c" by fact
    show "rmatch (tail_pat (length segs)) ?t
            = Some (segs @ [takeWhile (\<lambda>c. \<not> line_terminator c) suffix])"
      using assms(4,5) by (intro tail_match) auto
    fix u2 v' assume "u2 \<noteq> []" "?t = u2 @ v'"
    then show "rmatch (tail_pat (length segs)) v' = None"
      using assms(4,5) by (intro tail_fail[of u2 segs suffix v']) auto
  qed
  then show "rmatch (Lit ''/'' # Group # tail_pat (length segs)) (''/'' @ filename @ ?t)
          = Some (filename # segs @ [takeWhile (\<lambda>c. \<not> line_terminator c) suffix])"
    by simp
  fix u2 v' assume u2: "u2 \<noteq> []" and eq: "''/'' @ filename @ ?t = u2 @ v'"
  have noslash: "CHR ''/'' \<notin> set (filename @ ?t)"
    using assms(3,4,6) tail_body_no_slash[of segs] by auto
  from u2 eq obtain u3 where "filename @ ?t = u3 @ v'"
    by (cases u2) auto
  with noslash have "CHR ''/'' \<notin> set v'" by (metis Un_iff set_append)
  then have "take (length ''/'') v' \<noteq> ''/''" by (cases v') auto
  then show "rmatch (Lit ''/'' # Group # tail_pat (length segs)) v' = None"
    by simp
qed

lemma exec_first: "rmatch its s = Some gs \<Longrightarrow> exec its s = Some gs"
  by (cases s) auto

lemma extractFilename_complete:
  assumes "filename \<noteq> []"
      and "\<forall>c\<in>set (prefix @ filename @ seg2 @ seg3 @ seg4 @ seg5). \<not> line_terminator c"
      and "CHR ''/'' \<notin> set (filename @ seg2 @ seg3 @ seg4 @ seg5 @ suffix)"
      and "CHR ''_'' \<notin> set (seg2 @ seg3 @ seg4 @ seg5)"
      and "CHR ''?'' \<notin> set (seg2 @ seg3 @ seg4 @ seg5 @ suffix)"
  shows "extractFilename (storage_location prefix filename seg2 seg3 seg4 seg5 suffix) = Inr filename"
proof -
  have loc: "storage_location prefix filename seg2 seg3 seg4 seg5 suffix
          = prefix @ ''/'' @ filename @ tail_body [seg2, seg3, seg4, seg5] @ CHR ''?'' # suffix"
    by (simp add: storage_location_def)
  have "rmatch (Group # Lit ''/'' # Group # tail_pat (length [seg2, seg3, seg4, seg5]))
           (prefix @ ''/'' @ filename @ tail_body [seg2, seg3, seg4, seg5] @ CHR ''?'' # suffix)
           = Some (prefix # filename # [seg2, seg3, seg4, seg5]
                     @ [takeWhile (\<lambda>c. \<not> line_terminator c) suffix])"
    using assms(2-5) by (intro gcs_match) auto
  then have "rmatch GCS_URL_PATTERN (storage_location prefix filename seg2 seg3 seg4 seg5 suffix)
           = Some (prefix # filename # [seg2, seg3, seg4, seg5]
                     @ [takeWhile (\<lambda>c. \<not> line_terminator c) suffix])"
    unfolding loc GCS_tail by (simp add: eval_nat_numeral)
  from exec_first[OF this] assms(1) show ?thesis
    by (simp add: extractFilename_def)
qed

lemma extractFilename_error: "extractFilename u = Inl e \<Longrightarrow> e = NoFilename"
  by (auto simp: extractFilename_def split: option.splits list.splits if_splits)

text \<open>
  C9, as stated, fails: a location can have the seven-segment shape and make
  \<open>extractFilename\<close> throw. \<open>a/_b_c_d_e.csv?f\<close> has the shape with the empty filename;
  the pattern matches it and the check \<^verbatim>\<open>!match.groups.filename\<close> throws. And
  \<open>a/b_/_1_2_3_4.csv?x\<close> has the shape with the filename \<open>b\<close> (and the second segment
  \<open>/\<close>), but the greedy first group runs to the last slash, the filename of the match
  is empty and the function throws.
\<close>

theorem extractFilename_counterexample:
  "''a/_b_c_d_e.csv?f'' = storage_location ''a'' [] ''b'' ''c'' ''d'' ''e'' ''f'' \<and>
   extractFilename ''a/_b_c_d_e.csv?f'' = Inl NoFilename \<and>
   ''a/b_/_1_2_3_4.csv?x'' = storage_location ''a'' ''b'' ''/'' ''1'' ''2'' ''3_4'' ''x'' \<and>
   extractFilename ''a/b_/_1_2_3_4.csv?x'' = Inl NoFilename"
proof -
  have "extractFilename ''a/_b_c_d_e.csv?f'' = Inl NoFilename" by code_simp
  moreover have "extractFilename ''a/b_/_1_2_3_4.csv?x'' = Inl NoFilename" by code_simp
  ultimately show ?thesis by (simp add: storage_location_def)
qed

text \<open>
  C9, as amended. Whenever \<open>extractFilename\<close> returns, it returns a filename that is
  not empty and is the second segment of a reading of the location in the seven-segment
  shape. It throws the error \<^verbatim>\<open>Unable to extract filename from URL.\<close>, as its result,
  for every location that has no reading in that shape (and also when the filename of
  the match is empty). And it returns the filename of every location
  \<open>prefix/filename_seg2_seg3_seg4_seg5.csv?suffix\<close> that can be read in one way only:
  the filename is not empty, there is no line terminator before the suffix, no slash
  after the prefix, no underscore in the segments 2 to 5 and no question mark in them
  or in the suffix. The caller \<open>getReportName\<close> returns what \<open>extractFilename\<close> returns
  on the location it found, the error included.
\<close>

theorem extractFilename_spec:
  "(extractFilename u = Inr f \<longrightarrow>
      f \<noteq> [] \<and> (\<exists>x s2 s3 s4 s5 y. u = storage_location x f s2 s3 s4 s5 y)) \<and>
   ((\<nexists>x f s2 s3 s4 s5 y. u = storage_location x f s2 s3 s4 s5 y) \<longrightarrow>
      extractFilename u = Inl NoFilename) \<and>
   (filename \<noteq> [] \<and>
    (\<forall>c\<in>set (prefix @ filename @ seg2 @ seg3 @ seg4 @ seg5). \<not> line_terminator c) \<and>
    CHR ''/'' \<notin> set (filename @ seg2 @ seg3 @ seg4 @ seg5 @ suffix) \<and>
    CHR ''_'' \<notin> set (seg2 @ seg3 @ seg4 @ seg5) \<and>
    CHR ''?'' \<notin> set (seg2 @ seg3 @ seg4 @ seg5 @ suffix) \<longrightarrow>
      extractFilename (storage_location prefix filename seg2 seg3 seg4 seg5 suffix)
        = Inr filename) \<and>
   (rs \<noteq> [] \<longrightarrow> getReportName (Some (Some rs)) = extractFilename (first_available [] rs))"
proof (intro conjI impI)
  assume "rs \<noteq> []"
  then show "getReportName (Some (Some rs)) = extractFilename (first_available [] rs)"
    by (simp add: getReportName_def response_reports_def)
next
  assume "extractFilename u = Inr f"
  then show "f \<noteq> []" "\<exists>x s2 s3 s4 s5 y. u = storage_location x f s2 s3 s4 s5 y"
    using extractFilename_sound[of u f] by blast+
next
  assume none: "\<nexists>x f s2 s3 s4 s5 y. u = storage_location x f s2 s3 s4 s5 y"
  show "extractFilename u = Inl NoFilename"
  proof (cases "extractFilename u")
    case (Inl e)
    with extractFilename_error[OF Inl] show ?thesis by simp
  next
    case (Inr f)
    with extractFilename_sound[OF Inr] none show ?thesis by blast
  qed
next
  assume "filename \<noteq> [] \<and>
    (\<forall>c\<in>set (prefix @ filename @ seg2 @ seg3 @ seg4 @ seg5). \<not> line_terminator c) \<and>
    CHR ''/'' \<notin> set (filename @ seg2 @ seg3 @ seg4 @ seg5 @ suffix) \<and>
    CHR ''_'' \<notin> set (seg2 @ seg3 @ seg4 @ seg5) \<and>
    CHR ''?'' \<notin> set (seg2 @ seg3 @ seg4 @ seg5 @ suffix)"
  then show "extractFilename (storage_location prefix filename seg2 seg3 seg4 seg5 suffix)
        = Inr filename"
    by (intro extractFilename_complete) blast+
qed

theorem extractFilename_spec_witness:
  "extractFilename ''gs://bucket/My_Report_20210601_101010_1234_5678.csv?alt=media''
     = Inr ''My_Report'' \<and>
   ''My_Report'' \<noteq> [] \<and>
   (\<nexists>x f s2 s3 s4 s5 y. ''gs://bucket/report.csv'' = storage_location x f s2 s3 s4 s5 y) \<and>
   extractFilename ''gs://bucket/report.csv'' = Inl NoFilename \<and>
   getReportName (Some (Some [done_0602\<lparr>googleCloudStoragePath := ''gs://bucket/report.csv''\<rparr>]))
     = Inl NoFilename"
proof -
  have loc: "storage_location ''gs://bucket'' ''My_Report'' ''20210601'' ''101010'' ''1234'' ''5678''
               ''alt=media''
             = ''gs://bucket/My_Report_20210601_101010_1234_5678.csv?alt=media''"
    by (simp add: storage_location_def)
  have h: "''My_Report'' \<noteq> [] \<and>
    (\<forall>c\<in>set (''gs://bucket'' @ ''My_Report'' @ ''20210601'' @ ''101010'' @ ''1234'' @ ''5678'').
        \<not> line_terminator c) \<and>
    CHR ''/'' \<notin> set (''My_Report'' @ ''20210601'' @ ''101010'' @ ''1234'' @ ''5678'' @ ''alt=media'') \<and>
    CHR ''_'' \<notin> set (''20210601'' @ ''101010'' @ ''1234'' @ ''5678'') \<and>
    CHR ''?'' \<notin> set (''20210601'' @ ''101010'' @ ''1234'' @ ''5678'' @ ''alt=media'')"
    by (simp add: line_terminator_def)
  have none: "\<nexists>x f s2 s3 s4 s5 y. ''gs://bucket/report.csv'' = storage_location x f s2 s3 s4 s5 y"
  proof
    assume "\<exists>x f s2 s3 s4 s5 y. ''gs://bucket/report.csv'' = storage_location x f s2 s3 s4 s5 y"
    then obtain x f s2 s3 s4 s5 y
      where "''gs://bucket/report.csv'' = storage_location x f s2 s3 s4 s5 y" by blast
    then have "CHR ''?'' \<in> set ''gs://bucket/report.csv''"
      by (simp only: storage_location_def) simp
    then show False by simp
  qed
  have ret: "extractFilename ''gs://bucket/My_Report_20210601_101010_1234_5678.csv?alt=media''
     = Inr ''My_Report''"
    using extractFilename_spec[of _ _ "''My_Report''" "''gs://bucket''" "''20210601''" "''101010''"
        "''1234''" "''5678''" "''alt=media''"] h
    unfolding loc by blast
  from extractFilename_spec[of
      "''gs://bucket/My_Report_20210601_101010_1234_5678.csv?alt=media''" "''My_Report''"] ret
  have ne: "''My_Report'' \<noteq> []" by blast
  from extractFilename_spec[of "''gs://bucket/report.csv''"] none
  have thr: "extractFilename ''gs://bucket/report.csv'' = Inl NoFilename" by blast
  have "[done_0602\<lparr>googleCloudStoragePath := ''gs://bucket/report.csv''\<rparr>] \<noteq> []" by simp
  with extractFilename_spec[of _ _ _ _ _ _ _ _ _
      "[done_0602\<lparr>googleCloudStoragePath := ''gs://bucket/report.csv''\<rparr>]"]
  have "getReportName (Some (Some [done_0602\<lparr>googleCloudStoragePath := ''gs://bucket/report.csv''\<rparr>]))
     = extractFilename
         (first_available [] [done_0602\<lparr>googleCloudStoragePath := ''gs://bucket/report.csv''\<rparr>])"
    by blast
  with thr have caller:
    "getReportName (Some (Some [done_0602\<lparr>googleCloudStoragePath := ''gs://bucket/report.csv''\<rparr>]))
     = Inl NoFilename"
    by (simp add: done_0602_def REPORT_AVAILABLE_def)
  from ret ne none thr caller show ?thesis by blast
qed

subsection \<open>getReportName\<close>

lemma first_available_none:
  "\<forall>r\<in>set rs. state r \<noteq> REPORT_AVAILABLE \<Longrightarrow> first_available fileUrl rs = fileUrl"
  by (induction rs) auto

lemma extractFilename_empty: "extractFilename [] = Inl NoFilename"
  by (simp add: extractFilename_def GCS_URL_PATTERN_def)

text \<open>
  C10. When no report of the response is in state \<open>DONE\<close>, \<open>getReportName\<close> throws: the
  search loop leaves the empty string in \<^verbatim>\<open>fileUrl\<close>, \<open>extractFilename\<close> cannot match it
  and throws, and \<open>getReportName\<close> passes this error on. (When there is no report at
  all, the guard before the loop has thrown already.)
\<close>

theorem getReportName_no_available:
  assumes "\<forall>r\<in>set rs. state r \<noteq> REPORT_AVAILABLE"
  shows "first_available [] rs = [] \<and>
         extractFilename [] = Inl NoFilename \<and>
         getReportName (Some (Some rs)) = Inl (if rs = [] then InvalidResponse else NoFilename)"
  using assms
  by (simp add: getReportName_def response_reports_def first_available_none
      extractFilename_empty)

theorem getReportName_no_available_witness:
  "state running_0603 \<noteq> REPORT_AVAILABLE \<and> state failed_0531 \<noteq> REPORT_AVAILABLE \<and>
   first_available [] [running_0603, failed_0531] = [] \<and>
   getReportName (Some (Some [running_0603, failed_0531])) = Inl NoFilename"
proof -
  have h: "state running_0603 \<noteq> REPORT_AVAILABLE" "state failed_0531 \<noteq> REPORT_AVAILABLE"
    by (simp_all add: running_0603_def failed_0531_def REPORT_AVAILABLE_def)
  then have "\<forall>r\<in>set [running_0603, failed_0531]. state r \<noteq> REPORT_AVAILABLE" by simp
  from getReportName_no_available[OF this] h show ?thesis by simp
qed

end
